theory Spec2Isabelle
  imports Complex_Main "HOL-Library.Multiset" "HOL-Library.Char_ord"
    "HOL-Library.List_Lexorder" "HOL-Library.AList"
begin

section \<open>Task state and the progress callback (app.py)\<close>

text \<open>
  \<^verbatim>\<open>TASKS[task_id]\<close> is a dictionary with a fixed set of keys; it is modelled as a
  record. The field \<open>t_done\<close> is the key \<^verbatim>\<open>"done"\<close>, \<open>t_total\<close> the key
  \<^verbatim>\<open>"total"\<close>, and so on. Python integers are unbounded, hence \<open>int\<close>.
  An entry of \<^verbatim>\<open>t["errors"]\<close> is the pair of its \<^verbatim>\<open>"image"\<close> and
  \<^verbatim>\<open>"error"\<close> values.
\<close>

datatype status = pending | in_progress | paused | completed | failed

record control =
  c_paused :: bool
  c_stop :: bool

record task =
  t_pdf_name :: string
  t_status :: status
  t_total :: int
  t_done :: int
  t_embedded :: int
  t_pages :: int
  t_errors :: "(string option \<times> string) list"
  t_control :: control

text \<open>
  The \<^verbatim>\<open>usage\<close> dictionaries hold three counters. The empty dictionary \<^verbatim>\<open>{}\<close>
  that the code uses for "no usage known" is \<open>None\<close> of \<open>usage option\<close>.
\<close>

record usage =
  u_prompt :: int
  u_completion :: int
  u_total :: int

text \<open>
  The \<^verbatim>\<open>data\<close> dictionary of a progress event. A key that the event does not
  carry is \<open>None\<close>, so \<^verbatim>\<open>data.get(k, default)\<close> is a case distinction.
  (\<^verbatim>\<open>"error": None\<close> and a missing \<^verbatim>\<open>"error"\<close> key read the same through
  \<^verbatim>\<open>data.get("error")\<close>.)
\<close>

record event_data =
  d_pdf_name :: string
  d_total :: "int option"
  d_embedded :: "int option"
  d_pages :: "int option"
  d_done :: "int option"
  d_image :: "string option"
  d_error :: "string option"
  d_usage :: "usage option"

definition get_or :: "'a option \<Rightarrow> 'a \<Rightarrow> 'a" where
  \<comment> \<open>\<^verbatim>\<open>data.get(key, default)\<close>\<close>
  "get_or v dflt = (case v of Some x \<Rightarrow> x | None \<Rightarrow> dflt)"

definition int_or :: "int \<Rightarrow> int \<Rightarrow> int" where
  \<comment> \<open>Python's \<^verbatim>\<open>a or b\<close> on integers: \<^verbatim>\<open>0\<close> is falsy\<close>
  "int_or a b = (if a \<noteq> 0 then a else b)"

definition str_truthy :: "string option \<Rightarrow> bool" where
  \<comment> \<open>\<^verbatim>\<open>if err:\<close> for a value that is \<^verbatim>\<open>None\<close> or a string\<close>
  "str_truthy e = (case e of None \<Rightarrow> False | Some s \<Rightarrow> s \<noteq> [])"

text \<open>
  The body of \<^verbatim>\<open>_cb_pdf\<close> (and of \<^verbatim>\<open>_cb_imgs\<close>, which is the same text) once the
  task has been found. An event name other than the three known ones changes nothing.
\<close>

definition apply_event :: "string \<Rightarrow> event_data \<Rightarrow> task \<Rightarrow> task" where
  "apply_event event d t =
     (if event = ''start'' then
        t\<lparr>t_status := in_progress,
          t_total := int_or (get_or (d_total d) (t_total t)) 0,
          t_embedded := int_or (get_or (d_embedded d) (t_embedded t)) 0,
          t_pages := int_or (get_or (d_pages d) (t_pages t)) 0\<rparr>
      else if event = ''step'' then
        (let t1 = t\<lparr>t_status := in_progress,
                     t_done := int_or (get_or (d_done d) (t_done t)) 0\<rparr>
         in if str_truthy (d_error d)
            then t1\<lparr>t_errors := t_errors t1 @ [(d_image d, the (d_error d))]\<rparr>
            else t1)
      else if event = ''finish'' then
        t\<lparr>t_status := completed,
          t_done := int_or (get_or (d_done d) (t_done t)) (t_total t)\<rparr>
      else t)"

text \<open>
  \<^verbatim>\<open>TASKS\<close> is the process-wide dictionary from task id to task; \<^verbatim>\<open>_cb_pdf\<close>
  returns without effect when the id is unknown.
\<close>

definition cb_pdf :: "string \<Rightarrow> string \<Rightarrow> event_data \<Rightarrow> (string \<rightharpoonup> task) \<Rightarrow> (string \<rightharpoonup> task)" where
  "cb_pdf tid event d TASKS =
     (case TASKS tid of
        None \<Rightarrow> TASKS
      | Some t \<Rightarrow> TASKS(tid \<mapsto> apply_event event d t))"

definition no_data :: event_data where
  "no_data = \<lparr>d_pdf_name = [], d_total = None, d_embedded = None, d_pages = None,
              d_done = None, d_image = None, d_error = None, d_usage = None\<rparr>"

definition new_task :: "string \<Rightarrow> int \<Rightarrow> int \<Rightarrow> int \<Rightarrow> task" where
  \<comment> \<open>the dictionary that \<^verbatim>\<open>upload\<close> stores for a fresh task\<close>
  "new_task nm tot emb pgs =
     \<lparr>t_pdf_name = nm, t_status = pending, t_total = tot, t_done = 0,
      t_embedded = emb, t_pages = pgs, t_errors = [],
      t_control = \<lparr>c_paused = False, c_stop = False\<rparr>\<rparr>"

section \<open>The extraction client's retry loop (process_pdfs.py)\<close>

text \<open>
  An exception is its class and its message; \<^verbatim>\<open>str(e)\<close> is the message. The class
  \<open>RequestException\<close> stands for every \<^verbatim>\<open>requests\<close> exception that is none of
  the three classes the retry loop names (an HTTP error status from
  \<^verbatim>\<open>raise_for_status\<close>, a body that is not JSON), \<open>OtherError\<close> for an exception
  outside \<^verbatim>\<open>requests\<close>.
\<close>

datatype exn_class = ReadTimeout | ConnectTimeout | ConnectionError | RequestException
  | TypeError | UnboundLocalError | OtherError

datatype exn = Exn exn_class string

fun exn_str :: "exn \<Rightarrow> string" where
  "exn_str (Exn c msg) = msg"

fun is_transient :: "exn \<Rightarrow> bool" where
  "is_transient (Exn c msg) = (c = ReadTimeout \<or> c = ConnectTimeout \<or> c = ConnectionError)"

text \<open>
  The loop of \<^verbatim>\<open>call_doubao_extract_text\<close> (lines 249 to 266; the loop of
  \<^verbatim>\<open>call_doubao_extract_tables\<close>, lines 118 to 139, is the same but for the unused
  \<^verbatim>\<open>last_err\<close>). The network is a parameter: \<open>post k\<close> is what the body of the
  \<^verbatim>\<open>try\<close> does in the iteration \<^verbatim>\<open>attempt = k\<close>, either the decoded body
  \<^verbatim>\<open>j\<close> or the exception raised by \<^verbatim>\<open>requests.post\<close>, \<^verbatim>\<open>raise_for_status\<close> or
  \<^verbatim>\<open>resp.json\<close>. \<open>jitter k\<close> is the value \<^verbatim>\<open>random.uniform(0, 0.5)\<close> returns
  there. The loop's visible actions are logged: every network attempt and every
  \<^verbatim>\<open>time.sleep\<close> with its duration in seconds.
\<close>

datatype net_action = Post nat | Sleep real

definition getenv_retries :: "int option \<Rightarrow> int" where
  \<comment> \<open>\<^verbatim>\<open>int(os.getenv("ARK_RETRIES", "3"))\<close>, the variable's value already read as a number\<close>
  "getenv_retries v = get_or v 3"

text \<open>
  When \<^verbatim>\<open>range(retries + 1)\<close> is empty the loop body never runs, \<^verbatim>\<open>j\<close> is never
  bound, and the first use of \<^verbatim>\<open>j\<close> after the loop raises (message as of Python 3.11).
\<close>

definition unbound_j_msg :: string where
  "unbound_j_msg = ''cannot access local variable '' @ [CHR 0x27] @ ''j'' @ [CHR 0x27] @ '' where it is not associated with a value''"

fun retry_loop :: "(nat \<Rightarrow> exn + 'j) \<Rightarrow> (nat \<Rightarrow> real) \<Rightarrow> int \<Rightarrow> nat list \<Rightarrow> net_action list
    \<Rightarrow> (exn + 'j) \<times> net_action list" where
  "retry_loop post jitter retries [] acts =
     (Inl (Exn UnboundLocalError unbound_j_msg), acts)"
| "retry_loop post jitter retries (attempt # rest) acts =
     (case post attempt of
        Inr j \<Rightarrow> (Inr j, acts @ [Post attempt])
      | Inl e \<Rightarrow>
          if is_transient e then
            (if int attempt < retries
             then retry_loop post jitter retries rest
                    (acts @ [Post attempt, Sleep (2 ^ attempt + jitter attempt)])
             else (Inl e, acts @ [Post attempt]))
          else (Inl e, acts @ [Post attempt]))"

definition request_with_retry :: "(nat \<Rightarrow> exn + 'j) \<Rightarrow> (nat \<Rightarrow> real) \<Rightarrow> int
    \<Rightarrow> (exn + 'j) \<times> net_action list" where
  "request_with_retry post jitter retries =
     retry_loop post jitter retries [0..<nat (retries + 1)] []"

section \<open>Decoded JSON values and Python's operations on them\<close>

text \<open>
  What \<^verbatim>\<open>json.loads\<close> returns: \<^verbatim>\<open>None\<close>, a \<^verbatim>\<open>bool\<close>, an \<^verbatim>\<open>int\<close>, a
  \<^verbatim>\<open>float\<close>, a \<^verbatim>\<open>str\<close>, a \<^verbatim>\<open>list\<close> or a \<^verbatim>\<open>dict\<close> with string keys. A dictionary
  keeps the order of insertion, so it is an association list (the first entry of a key
  is the one that counts). A float is kept as a mantissa and a binary exponent; the
  code below only ever tests it for zero. Strings are lists of \<open>char\<close>, read as the
  code points 0 to 255.
\<close>

datatype json =
    JNull
  | JBool bool
  | JInt int
  | JFloat int int
  | JStr string
  | JArr "json list"
  | JObj "(string \<times> json) list"

fun truthy :: "json \<Rightarrow> bool" where
  \<comment> \<open>the truth value Python gives an object in \<^verbatim>\<open>if x\<close>, \<^verbatim>\<open>x or y\<close>, \<^verbatim>\<open>not x\<close>\<close>
  "truthy JNull = False"
| "truthy (JBool b) = b"
| "truthy (JInt n) = (n \<noteq> 0)"
| "truthy (JFloat m e) = (m \<noteq> 0)"
| "truthy (JStr s) = (s \<noteq> [])"
| "truthy (JArr xs) = (xs \<noteq> [])"
| "truthy (JObj kvs) = (kvs \<noteq> [])"

fun type_name :: "json \<Rightarrow> string" where
  "type_name JNull = ''NoneType''"
| "type_name (JBool b) = ''bool''"
| "type_name (JInt n) = ''int''"
| "type_name (JFloat m e) = ''float''"
| "type_name (JStr s) = ''str''"
| "type_name (JArr xs) = ''list''"
| "type_name (JObj kvs) = ''dict''"

definition quoted :: "string \<Rightarrow> string" where
  "quoted s = [CHR 0x27] @ s @ [CHR 0x27]"

fun py_iter :: "json \<Rightarrow> exn + json list" where
  \<comment> \<open>\<^verbatim>\<open>for x in v\<close>: a list gives its elements, a string its characters, a dictionary
      its keys; anything else raises \<^verbatim>\<open>TypeError\<close>\<close>
  "py_iter (JArr xs) = Inr xs"
| "py_iter (JStr s) = Inr (map (\<lambda>c. JStr [c]) s)"
| "py_iter (JObj kvs) = Inr (map (\<lambda>kv. JStr (fst kv)) kvs)"
| "py_iter v = Inl (Exn TypeError (quoted (type_name v) @ '' object is not iterable''))"

fun py_len :: "json \<Rightarrow> exn + nat" where
  \<comment> \<open>\<^verbatim>\<open>len(v)\<close>\<close>
  "py_len (JArr xs) = Inr (length xs)"
| "py_len (JStr s) = Inr (length s)"
| "py_len (JObj kvs) = Inr (length kvs)"
| "py_len v = Inl (Exn TypeError (''object of type '' @ quoted (type_name v) @ '' has no len()''))"

text \<open>
  The parts of Python's library that \<^verbatim>\<open>parse_model_output_to_content\<close> calls and that
  are not modelled further. They are parameters, so every theorem below holds whatever
  they compute:
  \<^item> \<open>json_loads\<close> is \<^verbatim>\<open>json.loads\<close>, with \<open>None\<close> for "raises" (every call stands in
    a \<^verbatim>\<open>try\<close> whose handler catches \<^verbatim>\<open>Exception\<close>);
  \<^item> \<open>findall_fence_json\<close> is \<^verbatim>\<open>re.findall\<close> with the pattern for a fenced block
    opened by three backquotes and \<^verbatim>\<open>json\<close>, \<open>findall_fence\<close> the same for a block
    opened by three backquotes alone;
  \<^item> \<open>search_object\<close> is \<^verbatim>\<open>re.search(r"\{[\s\S]*\}", text)\<close>, giving \<^verbatim>\<open>m.group(0)\<close>;
  \<^item> \<open>str_of\<close> is \<^verbatim>\<open>str(x)\<close> for a value \<open>x\<close> that is neither a string nor
    \<^verbatim>\<open>None\<close>.
\<close>

record pylib =
  json_loads :: "string \<Rightarrow> json option"
  findall_fence_json :: "string \<Rightarrow> string list"
  findall_fence :: "string \<Rightarrow> string list"
  search_object :: "string \<Rightarrow> string option"
  str_of :: "json \<Rightarrow> string"

section \<open>Lines of a text: \<^verbatim>\<open>splitlines\<close> and \<^verbatim>\<open>strip\<close>\<close>

definition isspace :: "char \<Rightarrow> bool" where
  \<comment> \<open>\<^verbatim>\<open>str.isspace\<close> on one character: TAB, LF, VT, FF, CR, the separators FS, GS, RS
      and US, the space, NEL and the no-break space\<close>
  "isspace c = (let n = (of_char c :: nat)
                in (9 \<le> n \<and> n \<le> 13) \<or> (28 \<le> n \<and> n \<le> 32) \<or> n = 133 \<or> n = 160)"

definition is_linebreak :: "char \<Rightarrow> bool" where
  \<comment> \<open>the line boundaries of \<^verbatim>\<open>str.splitlines\<close>: LF, VT, FF, CR, FS, GS, RS, NEL\<close>
  "is_linebreak c = (let n = (of_char c :: nat)
                     in (10 \<le> n \<and> n \<le> 13) \<or> (28 \<le> n \<and> n \<le> 30) \<or> n = 133)"

fun splitlines_from :: "string \<Rightarrow> string \<Rightarrow> string list" where
  \<comment> \<open>\<open>cur\<close> is the line read so far; CR LF is one boundary; no empty last line\<close>
  "splitlines_from cur [] = (if cur = [] then [] else [cur])"
| "splitlines_from cur [c] = (if is_linebreak c then [cur] else [cur @ [c]])"
| "splitlines_from cur (c # d # cs) =
     (if c = CHR 0x0D \<and> d = CHR 0x0A then cur # splitlines_from [] cs
      else if is_linebreak c then cur # splitlines_from [] (d # cs)
      else splitlines_from (cur @ [c]) (d # cs))"

definition splitlines :: "string \<Rightarrow> string list" where
  "splitlines s = splitlines_from [] s"

definition strip :: "string \<Rightarrow> string" where
  "strip s = rev (dropWhile isspace (rev (dropWhile isspace s)))"

section \<open>\<^verbatim>\<open>parse_model_output_to_content\<close> (process_pdfs.py)\<close>

definition content_of :: "json \<Rightarrow> json option" where
  \<comment> \<open>\<^verbatim>\<open>data["content"] or []\<close> under the test
      \<^verbatim>\<open>isinstance(data, dict) and "content" in data\<close>; \<open>None\<close> when the test fails\<close>
  "content_of data =
     (case data of
        JObj kvs \<Rightarrow>
          (case map_of kvs ''content'' of
             Some v \<Rightarrow> Some (if truthy v then v else JArr [])
           | None \<Rightarrow> None)
      | _ \<Rightarrow> None)"

definition parse_direct :: "pylib \<Rightarrow> string \<Rightarrow> json" where
  \<comment> \<open>lines 305 to 310: \<^verbatim>\<open>content_list\<close> after the first \<^verbatim>\<open>try\<close>\<close>
  "parse_direct L text =
     (case json_loads L text of
        None \<Rightarrow> JArr []
      | Some data \<Rightarrow> (case content_of data of Some c \<Rightarrow> c | None \<Rightarrow> JArr []))"

fun parse_candidates :: "pylib \<Rightarrow> string list \<Rightarrow> json" where
  \<comment> \<open>lines 316 to 323: the first candidate that decodes to a dictionary with the key
      \<^verbatim>\<open>content\<close> ends the loop\<close>
  "parse_candidates L [] = JArr []"
| "parse_candidates L (cand # rest) =
     (case json_loads L cand of
        None \<Rightarrow> parse_candidates L rest
      | Some data \<Rightarrow>
          (case content_of data of
             Some c \<Rightarrow> c
           | None \<Rightarrow> parse_candidates L rest))"

definition parse_fenced :: "pylib \<Rightarrow> string \<Rightarrow> json" where
  \<comment> \<open>lines 314 to 323: \<^verbatim>\<open>candidates = fence_json or re.findall(...)\<close>\<close>
  "parse_fenced L text =
     (let fence_json = findall_fence_json L text;
          candidates = (if fence_json \<noteq> [] then fence_json else findall_fence L text)
      in parse_candidates L candidates)"

definition parse_heuristic :: "pylib \<Rightarrow> string \<Rightarrow> json" where
  \<comment> \<open>lines 327 to 334\<close>
  "parse_heuristic L text =
     (case search_object L text of
        None \<Rightarrow> JArr []
      | Some m \<Rightarrow>
          (case json_loads L m of
             None \<Rightarrow> JArr []
           | Some data \<Rightarrow> (case content_of data of Some c \<Rightarrow> c | None \<Rightarrow> JArr [])))"

definition structured_content :: "pylib \<Rightarrow> string \<Rightarrow> json" where
  \<comment> \<open>\<^verbatim>\<open>content_list\<close> when the validation loop starts (line 336)\<close>
  "structured_content L text =
     (let c1 = parse_direct L text;
          c2 = (if \<not> truthy c1 then parse_fenced L text else c1);
          c3 = (if \<not> truthy c2 then parse_heuristic L text else c2)
      in c3)"

text \<open>
  Table repair, lines 339 to 360. \<open>cell_str\<close> is
  \<^verbatim>\<open>str(cell) if cell is not None else ""\<close>; \<open>list_rows\<close> is the loop that keeps the
  rows that are lists (a decoded JSON value is never a tuple) and skips the others;
  \<open>pad\<close> is the \<^verbatim>\<open>while len(row) < standard_cols: row.append("")\<close> loop and
  \<open>fit\<close> adds the slice \<^verbatim>\<open>row[:standard_cols]\<close>.
\<close>

definition cell_str :: "pylib \<Rightarrow> json \<Rightarrow> string" where
  "cell_str L cell = (case cell of JNull \<Rightarrow> [] | JStr s \<Rightarrow> s | _ \<Rightarrow> str_of L cell)"

fun list_rows :: "pylib \<Rightarrow> json list \<Rightarrow> string list list" where
  "list_rows L [] = []"
| "list_rows L (row # rows) =
     (case row of
        JArr cells \<Rightarrow> map (cell_str L) cells # list_rows L rows
      | _ \<Rightarrow> list_rows L rows)"

function pad :: "nat \<Rightarrow> string list \<Rightarrow> string list" where
  "pad standard_cols row =
     (if length row < standard_cols then pad standard_cols (row @ [[]]) else row)"
  by pat_completeness auto
termination
  by (relation "measure (\<lambda>(n, row). n - length row)") auto

declare pad.simps [simp del]

definition fit :: "nat \<Rightarrow> string list \<Rightarrow> string list" where
  "fit standard_cols row = take standard_cols (pad standard_cols row)"

definition rows_json :: "string list list \<Rightarrow> json" where
  \<comment> \<open>a list of lists of strings as a value\<close>
  "rows_json rows = JArr (map (\<lambda>row. JArr (map JStr row)) rows)"

definition repair_item :: "pylib \<Rightarrow> json \<Rightarrow> exn + json" where
  "repair_item L item =
     (case item of
        JObj kvs \<Rightarrow>
          if map_of kvs ''type'' = Some (JStr ''table'') then
            (let rows = (case map_of kvs ''rows'' of Some r \<Rightarrow> r | None \<Rightarrow> JArr [])
             in if truthy rows then
                  (case py_len rows of
                     Inl e \<Rightarrow> Inl e
                   | Inr n \<Rightarrow>
                       if n > 0 then
                         (case py_iter rows of
                            Inl e \<Rightarrow> Inl e
                          | Inr rs \<Rightarrow>
                              (case list_rows L rs of
                                 [] \<Rightarrow> Inr item
                               | first # others \<Rightarrow>
                                   (let standard_cols = length first;
                                        normalized_rows = map (fit standard_cols) (first # others)
                                    in Inr (JObj (AList.update ''rows'' (rows_json normalized_rows) kvs)))))
                       else Inr item)
                else Inr item)
          else Inr item
      | _ \<Rightarrow> Inr item)"

fun validate_items :: "pylib \<Rightarrow> json list \<Rightarrow> exn + json list" where
  \<comment> \<open>the loop of lines 338 to 361; an exception leaves the loop and the function\<close>
  "validate_items L [] = Inr []"
| "validate_items L (item # rest) =
     (case repair_item L item of
        Inl e \<Rightarrow> Inl e
      | Inr item' \<Rightarrow>
          (case validate_items L rest of
             Inl e \<Rightarrow> Inl e
           | Inr rest' \<Rightarrow> Inr (item' # rest')))"

definition nonblank_lines :: "string \<Rightarrow> string list" where
  \<comment> \<open>\<^verbatim>\<open>[ln.strip() for ln in text.splitlines() if ln.strip()]\<close>\<close>
  "nonblank_lines text = filter (\<lambda>ln. ln \<noteq> []) (map strip (splitlines text))"

definition paragraph_node :: "string \<Rightarrow> json" where
  \<comment> \<open>\<^verbatim>\<open>{"type": "paragraph", "text": line}\<close>\<close>
  "paragraph_node line = JObj [(''type'', JStr ''paragraph''), (''text'', JStr line)]"

definition parse_model_output_to_content :: "pylib \<Rightarrow> string \<Rightarrow> exn + json list" where
  "parse_model_output_to_content L text =
     (case py_iter (structured_content L text) of
        Inl e \<Rightarrow> Inl e
      | Inr items \<Rightarrow>
          (case validate_items L items of
             Inl e \<Rightarrow> Inl e
           | Inr validated_list \<Rightarrow>
               if validated_list = []
               then Inr (map paragraph_node (nonblank_lines text))
               else Inr validated_list))"

section \<open>One work item: \<^verbatim>\<open>_process_one\<close> (process_pdfs.py)\<close>

text \<open>
  An image is a \<^verbatim>\<open>pathlib.Path\<close>: the directory it lies in and its final component,
  \<^verbatim>\<open>p.name\<close>. \<^verbatim>\<open>_process_one\<close> returns the tuple
  \<^verbatim>\<open>(img_path, err, result_data, usage)\<close>.
\<close>

datatype path = Path (parent: string) (name: string)

type_synonym outcome = "path \<times> string option \<times> json list option \<times> usage option"

text \<open>
  What \<^verbatim>\<open>process_pdf\<close> and \<^verbatim>\<open>process_images\<close> are given, beyond the images:
  \<^item> \<open>batch_name\<close>, the \<^verbatim>\<open>pdf_name\<close> or \<^verbatim>\<open>batch_name\<close> of the events;
  \<^item> \<open>extract_mode\<close> and \<open>max_workers\<close>, as in the source;
  \<^item> \<open>control_getter\<close>, the optional function that reads the control gate: \<open>g t\<close> is
    what its call number \<open>t\<close> returns (the gate is written by other threads, so two
    calls need not agree; a missing key reads as \<open>False\<close>);
  \<^item> \<open>call_doubao_extract_text\<close> and \<open>call_doubao_extract_tables\<close>, what the
    extraction client returns for an image, the raw text and the usage, or the
    exception it raises;
  \<^item> \<open>lib\<close>, the library functions of the text parser;
  \<^item> \<open>parse_model_output_to_tables\<close>, the table parser, of which the driver only asks
    whether the result is empty; it is a parameter, so the theorems hold for any parser;
  \<^item> \<open>schedule\<close>, which futures the call number \<open>k\<close> of
    \<^verbatim>\<open>wait(running, ..., return_when=FIRST_COMPLETED)\<close> finds completed, and in which
    order the loop over \<^verbatim>\<open>done_set\<close> visits them: positions in \<open>running\<close>, at least one.
\<close>

record env =
  batch_name :: string
  extract_mode :: string
  max_workers :: int
  control_getter :: "(nat \<Rightarrow> control) option"
  call_doubao_extract_text :: "path \<Rightarrow> exn + string \<times> usage option"
  call_doubao_extract_tables :: "path \<Rightarrow> exn + string \<times> usage option"
  lib :: pylib
  parse_model_output_to_tables :: "string \<Rightarrow> exn + json list"
  schedule :: "nat \<Rightarrow> nat \<times> nat list"

definition process_one :: "env \<Rightarrow> path \<Rightarrow> outcome" where
  \<comment> \<open>the two definitions of \<^verbatim>\<open>_process_one\<close>, chosen by \<^verbatim>\<open>extract_mode\<close>; the
      \<^verbatim>\<open>except Exception\<close> clause turns every exception into the error text\<close>
  "process_one E img_path =
     (if extract_mode E = ''table'' then
        (case call_doubao_extract_tables E img_path of
           Inl e \<Rightarrow> (img_path, Some (exn_str e), None, None)
         | Inr (raw_text, usage) \<Rightarrow>
             (case parse_model_output_to_tables E raw_text of
                Inl e \<Rightarrow> (img_path, Some (exn_str e), None, None)
              | Inr tables \<Rightarrow>
                  if tables = [] then (img_path, Some ''no_tables'', None, usage)
                  else (img_path, None, Some tables, usage)))
      else
        (case call_doubao_extract_text E img_path of
           Inl e \<Rightarrow> (img_path, Some (exn_str e), None, None)
         | Inr (raw_text, usage) \<Rightarrow>
             (case parse_model_output_to_content (lib E) raw_text of
                Inl e \<Rightarrow> (img_path, Some (exn_str e), None, None)
              | Inr content_list \<Rightarrow>
                  if content_list = [] then (img_path, Some ''no_content'', None, usage)
                  else (img_path, None, Some content_list, usage))))"

section \<open>The control gate: \<^verbatim>\<open>_wait_if_paused\<close>\<close>

text \<open>
  The polling loop reads the gate until it finds \<^verbatim>\<open>stop\<close> set (and returns
  \<^verbatim>\<open>True\<close>) or \<^verbatim>\<open>paused\<close> clear (and returns \<^verbatim>\<open>False\<close>). It need not return: a
  gate that stays paused and is never stopped keeps it polling, which is the value
  \<open>None\<close>. The second component of the result is the number of reads made so far.
\<close>

partial_function (option) poll_control :: "(nat \<Rightarrow> control) \<Rightarrow> nat \<Rightarrow> (bool \<times> nat) option" where
  "poll_control g t =
     (if c_stop (g t) then Some (True, Suc t)
      else if \<not> c_paused (g t) then Some (False, Suc t)
      else poll_control g (Suc t))"

declare poll_control.simps [code]

definition wait_if_paused :: "(nat \<Rightarrow> control) option \<Rightarrow> nat \<Rightarrow> (bool \<times> nat) option" where
  "wait_if_paused getter t =
     (case getter of
        None \<Rightarrow> Some (False, t)
      | Some g \<Rightarrow> poll_control g t)"

section \<open>The drivers of \<^verbatim>\<open>process_pdf\<close> and \<^verbatim>\<open>process_images\<close>\<close>

text \<open>
  What the driver does that can be seen from outside, in order: a call of
  \<^verbatim>\<open>progress_cb\<close> with its event name and data; the start of \<^verbatim>\<open>_process_one\<close> for an
  image (directly, or by \<^verbatim>\<open>ex.submit\<close>); the arrival of its result (the return of the
  direct call, or \<^verbatim>\<open>fut.result()\<close>); and a call of \<^verbatim>\<open>_wait_if_paused\<close> that returned
  \<^verbatim>\<open>True\<close>, that is, the driver seeing \<^verbatim>\<open>stop\<close>. The callback is taken to be
  present (\<^verbatim>\<open>if progress_cb:\<close>), as it is for every task of app.py.
\<close>

datatype action =
    Emit string event_data
  | Submit path
  | Result path
  | Halt

text \<open>
  The variables of the driver. \<open>clock\<close> counts the reads of the control gate and
  \<open>ticks\<close> the calls of \<^verbatim>\<open>wait\<close>; \<open>imgs_iter\<close> is what the generator
  \<^verbatim>\<open>imgs_iter\<close> (or the \<^verbatim>\<open>for\<close> loop of the sequential driver) has not yet visited;
  \<open>running\<close> is the set of futures, a future standing as the image it was submitted
  for, in the order of submission; \<open>done_count\<close> is \<^verbatim>\<open>done\<close>.
\<close>

record pstate =
  clock :: nat
  ticks :: nat
  imgs_iter :: "path list"
  running :: "path list"
  seen :: "path set"
  done_count :: nat
  usage_totals :: usage
  image_results :: "(string \<times> json list) list"
  trace :: "action list"

definition add_usage :: "usage \<Rightarrow> usage option \<Rightarrow> usage" where
  \<comment> \<open>\<^verbatim>\<open>if usage_delta: usage_totals[k] += usage_delta.get(k, 0) or 0\<close>\<close>
  "add_usage totals usage_delta =
     (case usage_delta of
        None \<Rightarrow> totals
      | Some u \<Rightarrow> \<lparr>u_prompt = u_prompt totals + u_prompt u,
                  u_completion = u_completion totals + u_completion u,
                  u_total = u_total totals + u_total u\<rparr>)"

definition data_truthy :: "json list option \<Rightarrow> bool" where
  \<comment> \<open>\<^verbatim>\<open>if result_data:\<close> for a value that is \<^verbatim>\<open>None\<close> or a list\<close>
  "data_truthy r = (case r of None \<Rightarrow> False | Some xs \<Rightarrow> xs \<noteq> [])"

definition step_data :: "string \<Rightarrow> nat \<Rightarrow> nat \<Rightarrow> path \<Rightarrow> string option \<Rightarrow> usage option \<Rightarrow> event_data" where
  "step_data nm d tot img_path err usage_delta =
     \<lparr>d_pdf_name = nm, d_total = Some (int tot), d_embedded = None, d_pages = None,
      d_done = Some (int d), d_image = Some (name img_path), d_error = err,
      d_usage = usage_delta\<rparr>"

definition start_data :: "string \<Rightarrow> nat \<Rightarrow> nat \<Rightarrow> nat \<Rightarrow> event_data" where
  "start_data nm tot emb pgs =
     \<lparr>d_pdf_name = nm, d_total = Some (int tot), d_embedded = Some (int emb),
      d_pages = Some (int pgs), d_done = None, d_image = None, d_error = None,
      d_usage = None\<rparr>"

definition finish_data :: "string \<Rightarrow> nat \<Rightarrow> nat \<Rightarrow> usage \<Rightarrow> event_data" where
  "finish_data nm d tot totals =
     \<lparr>d_pdf_name = nm, d_total = Some (int tot), d_embedded = None, d_pages = None,
      d_done = Some (int d), d_image = None, d_error = None, d_usage = Some totals\<rparr>"

text \<open>
  The statements that both drivers run once a result has arrived: count it, add its
  usage, report the step, and keep the data of a result without error.
\<close>

definition record_result :: "env \<Rightarrow> nat \<Rightarrow> outcome \<Rightarrow> pstate \<Rightarrow> pstate" where
  "record_result E tot out s =
     (case out of (img_path, err, result_data, usage_delta) \<Rightarrow>
        s\<lparr>done_count := done_count s + 1,
          usage_totals := add_usage (usage_totals s) usage_delta,
          trace := trace s @ [Result img_path,
                     Emit ''step'' (step_data (batch_name E) (done_count s + 1) tot
                                      img_path err usage_delta)],
          image_results :=
            (if \<not> str_truthy err \<and> data_truthy result_data
             then image_results s @ [(name img_path, the result_data)]
             else image_results s)\<rparr>)"

subsection \<open>The sequential driver (\<^verbatim>\<open>max_workers\<close> at most 1)\<close>

fun run_sequential :: "env \<Rightarrow> nat \<Rightarrow> path list \<Rightarrow> pstate \<Rightarrow> pstate option" where
  "run_sequential E tot [] s = Some s"
| "run_sequential E tot (img_path # rest) s =
     (if img_path \<in> seen s then run_sequential E tot rest s
      else
        (case wait_if_paused (control_getter E) (clock s) of
           None \<Rightarrow> None
         | Some (True, t) \<Rightarrow> Some (s\<lparr>clock := t, trace := trace s @ [Halt]\<rparr>)
         | Some (False, t) \<Rightarrow>
             run_sequential E tot rest
               (record_result E tot (process_one E img_path)
                  (s\<lparr>clock := t, seen := insert img_path (seen s),
                     trace := trace s @ [Submit img_path]\<rparr>))))"

subsection \<open>The worker pool (\<^verbatim>\<open>max_workers\<close> above 1)\<close>

fun next_img :: "path set \<Rightarrow> path list \<Rightarrow> path option \<times> path list" where
  \<comment> \<open>\<^verbatim>\<open>next(imgs_iter, None)\<close> for the generator
      \<^verbatim>\<open>(p for p in images_to_process if p not in seen)\<close>\<close>
  "next_img sn [] = (None, [])"
| "next_img sn (p # ps) = (if p \<in> sn then next_img sn ps else (Some p, ps))"

lemma next_img_length: "next_img sn ps = (Some p, ps') \<Longrightarrow> length ps' < length ps"
  by (induction ps) (auto split: if_splits)

lemma next_img_None: "next_img sn ps = (None, ps') \<Longrightarrow> ps' = []"
  by (induction ps) (auto split: if_splits)

function fill :: "env \<Rightarrow> pstate \<Rightarrow> pstate option" where
  \<comment> \<open>the first submissions, lines 724 to 730\<close>
  "fill E s =
     (if int (length (running s)) < max_workers E then
        (case wait_if_paused (control_getter E) (clock s) of
           None \<Rightarrow> None
         | Some (True, t) \<Rightarrow> Some (s\<lparr>clock := t, trace := trace s @ [Halt]\<rparr>)
         | Some (False, t) \<Rightarrow>
             (case next_img (seen s) (imgs_iter s) of
                (None, it) \<Rightarrow> Some (s\<lparr>clock := t, imgs_iter := it\<rparr>)
              | (Some nxt, it) \<Rightarrow>
                  fill E (s\<lparr>clock := t, imgs_iter := it, running := running s @ [nxt],
                            trace := trace s @ [Submit nxt]\<rparr>)))
      else Some s)"
  by pat_completeness auto
termination
  by (relation "measure (\<lambda>(E, s). nat (max_workers E - int (length (running s))))") auto

declare fill.simps [simp del]

text \<open>
  \<^verbatim>\<open>wait\<close> returns when at least one future has completed (its timeout only makes the
  loop test \<^verbatim>\<open>running\<close> again; every call of \<^verbatim>\<open>_process_one\<close> ends, since every
  network attempt has a timeout and the retries are bounded). The futures found
  completed are those at the scheduled positions of \<open>running\<close>, each once.
\<close>

definition done_set :: "nat \<times> nat list \<Rightarrow> path list \<Rightarrow> path list" where
  "done_set choice rs =
     remdups (map (\<lambda>j. rs ! (j mod length rs)) (fst choice # snd choice))"

fun handle_done :: "env \<Rightarrow> nat \<Rightarrow> path list \<Rightarrow> pstate \<Rightarrow> pstate option" where
  \<comment> \<open>the loop \<^verbatim>\<open>for fut in done_set\<close>, lines 734 to 757\<close>
  "handle_done E tot [] s = Some s"
| "handle_done E tot (fut # rest) s =
     (let s1 = record_result E tot (process_one E fut)
                 (s\<lparr>running := remove1 fut (running s), seen := insert fut (seen s)\<rparr>)
      in case wait_if_paused (control_getter E) (clock s1) of
           None \<Rightarrow> None
         | Some (True, t) \<Rightarrow> Some (s1\<lparr>clock := t, running := [], trace := trace s1 @ [Halt]\<rparr>)
         | Some (False, t) \<Rightarrow>
             (case next_img (seen s1) (imgs_iter s1) of
                (None, it) \<Rightarrow> handle_done E tot rest (s1\<lparr>clock := t, imgs_iter := it\<rparr>)
              | (Some nxt, it) \<Rightarrow>
                  handle_done E tot rest
                    (s1\<lparr>clock := t, imgs_iter := it, running := running s1 @ [nxt],
                        trace := trace s1 @ [Submit nxt]\<rparr>)))"

text \<open>
  The loop \<^verbatim>\<open>while running\<close>, lines 732 to 757. It ends: every pass takes at least
  one future out of \<open>running\<close>, and a future is added only for an image that the
  generator gives up.
\<close>

lemma handle_done_decreases:
  "handle_done E tot ds s = Some s' \<Longrightarrow> distinct ds \<Longrightarrow> set ds \<subseteq> set (running s) \<Longrightarrow>
   length (imgs_iter s') + length (running s') + (if ds = [] then 0 else 1)
     \<le> length (imgs_iter s) + length (running s)"
proof (induction ds arbitrary: s)
  case Nil
  then show ?case by simp
next
  case (Cons fut rest)
  define s1 where "s1 = record_result E tot (process_one E fut)
     (s\<lparr>running := remove1 fut (running s), seen := insert fut (seen s)\<rparr>)"
  have fut: "fut \<in> set (running s)" and dr: "distinct rest"
    using Cons.prems(2,3) by auto
  have rest: "set rest \<subseteq> set (remove1 fut (running s))"
  proof
    fix x assume x: "x \<in> set rest"
    then have "x \<noteq> fut" and "x \<in> set (running s)" using Cons.prems(2,3) by auto
    then show "x \<in> set (remove1 fut (running s))" by (simp add: in_set_remove1)
  qed
  have r1: "running s1 = remove1 fut (running s)" and i1: "imgs_iter s1 = imgs_iter s"
    by (simp_all add: s1_def record_result_def split: prod.splits)
  have len: "Suc (length (running s1)) = length (running s)"
    using fut by (simp add: r1 length_remove1) (metis Suc_pred length_pos_if_in_set)
  from Cons.prems(1) obtain b t where g: "wait_if_paused (control_getter E) (clock s1) = Some (b, t)"
    by (auto simp: s1_def[symmetric] Let_def split: option.splits)
  show ?case
  proof (cases b)
    case True
    with Cons.prems(1) g have "s' = s1\<lparr>clock := t, running := [], trace := trace s1 @ [Halt]\<rparr>"
      by (simp add: s1_def[symmetric] Let_def)
    then show ?thesis using len i1 by simp
  next
    case False
    obtain nx it where n: "next_img (seen s1) (imgs_iter s1) = (nx, it)" by fastforce
    show ?thesis
    proof (cases nx)
      case None
      then have it: "length it \<le> length (imgs_iter s)"
        using n next_img_None by fastforce
      define s2 where "s2 = s1\<lparr>clock := t, imgs_iter := it\<rparr>"
      have run: "handle_done E tot rest s2 = Some s'"
        using Cons.prems(1) g False n None by (simp add: s1_def[symmetric] s2_def Let_def)
      have "set rest \<subseteq> set (running s2)" using rest by (simp add: s2_def r1)
      from Cons.IH[OF run dr this] show ?thesis
        using len it by (simp add: s2_def split: if_splits)
    next
      case (Some nxt)
      then have it: "length it < length (imgs_iter s)"
        using n i1 next_img_length by metis
      define s2 where "s2 = s1\<lparr>clock := t, imgs_iter := it, running := running s1 @ [nxt],
                        trace := trace s1 @ [Submit nxt]\<rparr>"
      have run: "handle_done E tot rest s2 = Some s'"
        using Cons.prems(1) g False n Some by (simp add: s1_def[symmetric] s2_def Let_def)
      have "set rest \<subseteq> set (running s2)" using rest by (auto simp: s2_def r1)
      from Cons.IH[OF run dr this] show ?thesis
        using len it by (simp add: s2_def split: if_splits)
    qed
  qed
qed

lemma done_set_running:
  "rs \<noteq> [] \<Longrightarrow> done_set choice rs \<noteq> [] \<and> distinct (done_set choice rs)
     \<and> set (done_set choice rs) \<subseteq> set rs"
  by (auto simp: done_set_def)

function run_pool :: "env \<Rightarrow> nat \<Rightarrow> pstate \<Rightarrow> pstate option" where
  "run_pool E tot s =
     (if running s = [] then Some s
      else
        (case handle_done E tot (done_set (schedule E (ticks s)) (running s))
                (s\<lparr>ticks := ticks s + 1\<rparr>) of
           None \<Rightarrow> None
         | Some s' \<Rightarrow> run_pool E tot s'))"
  by pat_completeness auto
termination
proof (relation "measure (\<lambda>(E, tot, s). length (imgs_iter s) + length (running s))")
  fix E :: env and tot :: nat and s s' :: pstate
  assume r: "running s \<noteq> []"
    and h: "handle_done E tot (done_set (schedule E (ticks s)) (running s))
              (s\<lparr>ticks := ticks s + 1\<rparr>) = Some s'"
  from done_set_running[OF r, of "schedule E (ticks s)"]
  have "length (imgs_iter s') + length (running s') + 1
          \<le> length (imgs_iter s) + length (running s)"
    using handle_done_decreases[OF h] by simp
  then show "((E, tot, s'), (E, tot, s))
      \<in> measure (\<lambda>(E, tot, s). length (imgs_iter s) + length (running s))"
    by simp
qed simp

declare run_pool.simps [simp del]

subsection \<open>\<^verbatim>\<open>process_pdf\<close> and \<^verbatim>\<open>process_images\<close> from the image list on\<close>

definition initial :: "string \<Rightarrow> nat \<Rightarrow> nat \<Rightarrow> nat \<Rightarrow> pstate" where
  \<comment> \<open>the variables before the driver starts, the start event sent\<close>
  "initial nm tot emb pgs =
     \<lparr>clock = 0, ticks = 0, imgs_iter = [], running = [], seen = {}, done_count = 0,
      usage_totals = \<lparr>u_prompt = 0, u_completion = 0, u_total = 0\<rparr>,
      image_results = [], trace = [Emit ''start'' (start_data nm tot emb pgs)]\<rparr>"

definition run_driver :: "env \<Rightarrow> nat \<Rightarrow> path list \<Rightarrow> pstate \<Rightarrow> pstate option" where
  \<comment> \<open>\<^verbatim>\<open>if max_workers and max_workers > 1: ... else: ...\<close>\<close>
  "run_driver E tot images_to_process s =
     (if max_workers E > 1 then
        (case fill E (s\<lparr>imgs_iter := images_to_process\<rparr>) of
           None \<Rightarrow> None
         | Some s1 \<Rightarrow> run_pool E tot s1)
      else run_sequential E tot images_to_process s)"

definition order_map :: "path list \<Rightarrow> (string \<rightharpoonup> nat)" where
  \<comment> \<open>\<^verbatim>\<open>{p.name: idx for idx, p in enumerate(images_to_process)}\<close>: a later image
      with the same name takes the entry over\<close>
  "order_map images_to_process =
     fold (\<lambda>(idx, p) m. m(name p \<mapsto> idx)) (enumerate 0 images_to_process) Map.empty"

definition order_key :: "path list \<Rightarrow> string \<times> json list \<Rightarrow> nat" where
  \<comment> \<open>\<^verbatim>\<open>lambda x: order_map.get(x[0], 10**9)\<close>\<close>
  "order_key images_to_process x =
     (case order_map images_to_process (fst x) of Some idx \<Rightarrow> idx | None \<Rightarrow> 10 ^ 9)"

text \<open>
  The result of a run is the list of visible actions and the list
  \<^verbatim>\<open>image_results_sorted\<close> that is handed to \<^verbatim>\<open>write_content_to_word\<close> or
  \<^verbatim>\<open>write_aggregated_excel\<close>. Python's \<^verbatim>\<open>sorted\<close> is stable, as \<open>sort_key\<close> is.
\<close>

definition finish :: "env \<Rightarrow> nat \<Rightarrow> path list \<Rightarrow> pstate \<Rightarrow> action list \<times> (string \<times> json list) list" where
  "finish E tot images_to_process s =
     (trace s @ [Emit ''finish'' (finish_data (batch_name E) (done_count s) tot (usage_totals s))],
      sort_key (order_key images_to_process) (image_results s))"

definition process_pdf :: "env \<Rightarrow> path list \<Rightarrow> path list
    \<Rightarrow> (action list \<times> (string \<times> json list) list) option" where
  \<comment> \<open>\<open>embedded_images\<close> and \<open>full_pages\<close> are what \<^verbatim>\<open>save_embedded_images\<close> and
      \<^verbatim>\<open>render_full_pages\<close> returned (empty when \<^verbatim>\<open>source_mode\<close> leaves one out)\<close>
  "process_pdf E embedded_images full_pages =
     (let tot = length embedded_images + length full_pages;
          images_to_process = embedded_images @ full_pages
      in case run_driver E tot images_to_process
                (initial (batch_name E) tot (length embedded_images) (length full_pages)) of
           None \<Rightarrow> None
         | Some s \<Rightarrow> Some (finish E tot images_to_process s))"

section \<open>The images of a PDF: \<^verbatim>\<open>save_embedded_images\<close> and \<^verbatim>\<open>render_full_pages\<close>\<close>

text \<open>
  Of the PDF the two functions read its pages and, for each page, the images that
  \<^verbatim>\<open>page.get_images\<close> lists; of an image only the \<^verbatim>\<open>ext\<close> entry of
  \<^verbatim>\<open>doc.extract_image\<close> goes into the name (\<open>None\<close> when the entry is missing). It is
  a file extension, without a path separator, so the formatted name is the \<^verbatim>\<open>name\<close> of
  the path \<^verbatim>\<open>out_dir / name\<close>. \<open>str_nat\<close> is \<^verbatim>\<open>str\<close> on a natural number, as the
  f-strings apply it.
\<close>

type_synonym document = "string option list list"

definition digit_char :: "nat \<Rightarrow> char" where
  "digit_char d = char_of (48 + d)"

function str_nat :: "nat \<Rightarrow> string" where
  "str_nat n = (if n < 10 then [digit_char n] else str_nat (n div 10) @ [digit_char (n mod 10)])"
  by pat_completeness auto

termination
  by (relation "measure id") auto

declare str_nat.simps [simp del]

definition embedded_name :: "nat \<Rightarrow> nat \<Rightarrow> string \<Rightarrow> string" where
  \<comment> \<open>\<^verbatim>\<open>f"page-{page_index+1}-img-{img_index+1}.{ext}"\<close>\<close>
  "embedded_name page_index img_index ext =
     ''page-'' @ str_nat (page_index + 1) @ ''-img-'' @ str_nat (img_index + 1) @ ''.'' @ ext"

definition full_name :: "nat \<Rightarrow> string" where
  \<comment> \<open>\<^verbatim>\<open>f"page-{page_index+1}-full.png"\<close>\<close>
  "full_name page_index = ''page-'' @ str_nat (page_index + 1) @ ''-full.png''"

definition page_images :: "string \<Rightarrow> nat \<Rightarrow> string option list \<Rightarrow> path list" where
  \<comment> \<open>the inner loop of \<^verbatim>\<open>save_embedded_images\<close>, over the images of one page\<close>
  "page_images out_dir page_index images =
     map (\<lambda>(img_index, img). Path out_dir (embedded_name page_index img_index (get_or img ''png'')))
       (enumerate 0 images)"

definition save_embedded_images :: "document \<Rightarrow> string \<Rightarrow> path list" where
  "save_embedded_images doc out_dir =
     concat (map (\<lambda>(page_index, images). page_images out_dir page_index images) (enumerate 0 doc))"

definition render_full_pages :: "document \<Rightarrow> string \<Rightarrow> path list" where
  "render_full_pages doc out_dir =
     map (\<lambda>page_index. Path out_dir (full_name page_index)) [0..<length doc]"

definition source_images :: "document \<Rightarrow> string \<Rightarrow> string \<Rightarrow> path list \<times> path list" where
  \<comment> \<open>\<open>embedded_images\<close> and \<open>full_pages\<close> as \<^verbatim>\<open>process_pdf\<close> sets them by
      \<^verbatim>\<open>source_mode\<close>\<close>
  "source_images doc tmp_img_dir source_mode =
     (if source_mode = ''both'' \<or> source_mode = ''embedded''
      then save_embedded_images doc tmp_img_dir else [],
      if source_mode = ''both'' \<or> source_mode = ''page''
      then render_full_pages doc tmp_img_dir else [])"

section \<open>\<^verbatim>\<open>natural_key\<close> and \<^verbatim>\<open>process_images\<close> (process_pdfs.py)\<close>

text \<open>
  File names are ASCII here (app.py, the only caller, passes every uploaded name through
  \<^verbatim>\<open>secure_filename\<close>), so \<^verbatim>\<open>\d\<close> and \<^verbatim>\<open>str.isdigit\<close> both mean the digits 0 to 9
  and \<^verbatim>\<open>str.lower\<close> changes the letters A to Z.

  \<^verbatim>\<open>re.split(r"(\d+)", name)\<close> cuts the name at its maximal runs of digits and keeps
  the runs: the result starts and ends with a piece without digits (possibly empty),
  and pieces without digits and runs of digits alternate.
\<close>

definition is_digit :: "char \<Rightarrow> bool" where
  "is_digit c = (CHR ''0'' \<le> c \<and> c \<le> CHR ''9'')"

fun split_text :: "string \<Rightarrow> string \<Rightarrow> string list"
  and split_digits :: "string \<Rightarrow> string \<Rightarrow> string list" where
  "split_text cur [] = [cur]"
| "split_text cur (c # cs) =
     (if is_digit c then cur # split_digits [c] cs else split_text (cur @ [c]) cs)"
| "split_digits cur [] = [cur, []]"
| "split_digits cur (c # cs) =
     (if is_digit c then split_digits (cur @ [c]) cs else cur # split_text [c] cs)"

definition re_split_digits :: "string \<Rightarrow> string list" where
  "re_split_digits s = split_text [] s"

definition isdigit :: "string \<Rightarrow> bool" where
  \<comment> \<open>\<^verbatim>\<open>p.isdigit()\<close>: at least one character, and digits only\<close>
  "isdigit p = (p \<noteq> [] \<and> list_all is_digit p)"

definition int_of_digits :: "string \<Rightarrow> nat" where
  \<comment> \<open>\<^verbatim>\<open>int(p)\<close> for a string of digits\<close>
  "int_of_digits p = foldl (\<lambda>n c. 10 * n + (of_char c - 48)) 0 p"

definition lower_char :: "char \<Rightarrow> char" where
  "lower_char c = (if CHR ''A'' \<le> c \<and> c \<le> CHR ''Z'' then char_of (of_char c + (32::nat)) else c)"

definition lower :: "string \<Rightarrow> string" where
  "lower p = map lower_char p"

text \<open>
  A key is a list of integers and strings. Python compares two such lists item by
  item, integers as numbers and strings by code points, and a list that is a proper
  beginning of another is the smaller. Comparing an integer with a string raises
  \<^verbatim>\<open>TypeError\<close>; two keys of \<^verbatim>\<open>natural_key\<close> never do that, since both have strings at
  the even positions and integers at the odd ones (lemma \<open>natural_key_kinds\<close>). The
  order below puts integers before strings there, to be total.
\<close>

datatype keypart = KInt nat | KStr string

instantiation keypart :: linorder
begin

fun less_eq_keypart :: "keypart \<Rightarrow> keypart \<Rightarrow> bool" where
  "less_eq_keypart (KInt a) (KInt b) = (a \<le> b)"
| "less_eq_keypart (KInt a) (KStr t) = True"
| "less_eq_keypart (KStr s) (KInt b) = False"
| "less_eq_keypart (KStr s) (KStr t) = (s \<le> t)"

definition less_keypart :: "keypart \<Rightarrow> keypart \<Rightarrow> bool" where
  "less_keypart x y = (x \<le> y \<and> \<not> y \<le> x)"

instance
proof
  fix x y z :: keypart
  show "(x < y) = (x \<le> y \<and> \<not> y \<le> x)" by (simp add: less_keypart_def)
  show "x \<le> x" by (cases x) simp_all
  show "x \<le> y \<Longrightarrow> y \<le> z \<Longrightarrow> x \<le> z" by (cases x; cases y; cases z) auto
  show "x \<le> y \<Longrightarrow> y \<le> x \<Longrightarrow> x = y" by (cases x; cases y) auto
  show "x \<le> y \<or> y \<le> x" by (cases x; cases y) auto
qed

end

definition natural_key :: "string \<Rightarrow> keypart list" where
  "natural_key nm =
     map (\<lambda>p. if isdigit p then KInt (int_of_digits p) else KStr (lower p)) (re_split_digits nm)"


section \<open>The finish event\<close>

text \<open>
  C3, as stated: applying \<open>finish\<close> makes the status \<open>completed\<close> and brings
  \<open>done\<close> to at least the last known total. The second half fails: the code stores
  the event's own \<^verbatim>\<open>done\<close> value whenever it is non-zero. A batch of five items that
  was stopped after two reports \<^verbatim>\<open>done = 2\<close>, and the task keeps \<open>2 < 5\<close>.
\<close>

theorem finish_done_below_total_counterexample:
  "t_status (apply_event ''finish'' (no_data\<lparr>d_done := Some 2, d_total := Some 5\<rparr>)
       ((new_task ''doc'' 5 5 0)\<lparr>t_status := in_progress, t_done := 2\<rparr>)) = completed
   \<and> t_done (apply_event ''finish'' (no_data\<lparr>d_done := Some 2, d_total := Some 5\<rparr>)
       ((new_task ''doc'' 5 5 0)\<lparr>t_status := in_progress, t_done := 2\<rparr>))
     < t_total (apply_event ''finish'' (no_data\<lparr>d_done := Some 2, d_total := Some 5\<rparr>)
       ((new_task ''doc'' 5 5 0)\<lparr>t_status := in_progress, t_done := 2\<rparr>))"
  by (simp add: apply_event_def no_data_def new_task_def get_or_def int_or_def)

text \<open>
  C3, amended: applying \<open>finish\<close> makes the status \<open>completed\<close>, leaves the total
  unchanged, and sets \<open>done\<close> to the event's \<^verbatim>\<open>done\<close> value when that is non-zero
  and to the last known total when it is zero (with the task's own \<open>done\<close> standing in
  for a missing key). Hence \<open>done\<close> reaches the total exactly when the reported value is
  zero or is itself at least the total.
\<close>

theorem finish_sets_completed:
  "t_status (apply_event ''finish'' d t) = completed
   \<and> t_total (apply_event ''finish'' d t) = t_total t
   \<and> t_done (apply_event ''finish'' d t) =
       (if get_or (d_done d) (t_done t) \<noteq> 0 then get_or (d_done d) (t_done t) else t_total t)
   \<and> (t_total t \<le> t_done (apply_event ''finish'' d t)
        \<longleftrightarrow> get_or (d_done d) (t_done t) = 0 \<or> t_total t \<le> get_or (d_done d) (t_done t))"
  by (auto simp add: apply_event_def int_or_def)

theorem finish_sets_completed_witness:
  "t_status (apply_event ''finish'' (no_data\<lparr>d_done := Some 5\<rparr>) (new_task ''doc'' 5 5 0)) = completed
   \<and> t_done (apply_event ''finish'' (no_data\<lparr>d_done := Some 5\<rparr>) (new_task ''doc'' 5 5 0)) = 5
   \<and> t_total (new_task ''doc'' 5 5 0) \<le> t_done (apply_event ''finish'' (no_data\<lparr>d_done := Some 5\<rparr>) (new_task ''doc'' 5 5 0))"
  using finish_sets_completed [of "no_data\<lparr>d_done := Some 5\<rparr>" "new_task ''doc'' 5 5 0"]
  by (simp add: no_data_def new_task_def get_or_def)

section \<open>Bounded retry with backoff\<close>

text \<open>
  Notions for the statement: an attempt that failed with one of the three retried
  classes; the log of a run whose attempts \<open>i, ..., n - 1\<close> were each followed by a
  sleep of \<open>1 * 2 ^ k + jitter k\<close> seconds and whose attempt \<open>n\<close> was the last; the
  number of network attempts in a log.
\<close>

definition transient_failure :: "exn + 'j \<Rightarrow> bool" where
  "transient_failure r = (case r of Inl e \<Rightarrow> is_transient e | Inr j \<Rightarrow> False)"

definition backoff_log :: "(nat \<Rightarrow> real) \<Rightarrow> nat \<Rightarrow> nat \<Rightarrow> net_action list" where
  "backoff_log jitter i n = concat (map (\<lambda>k. [Post k, Sleep (1 * 2 ^ k + jitter k)]) [i..<n]) @ [Post n]"

definition posts :: "net_action list \<Rightarrow> nat" where
  "posts acts = length (filter (\<lambda>a. case a of Post k \<Rightarrow> True | Sleep d \<Rightarrow> False) acts)"

lemma retry_loop_upt:
  "i \<le> R \<Longrightarrow>
   \<exists>n. i \<le> n \<and> n \<le> R
     \<and> retry_loop post jitter (int R) [i..<Suc R] acts = (post n, acts @ backoff_log jitter i n)
     \<and> (\<forall>k. i \<le> k \<and> k < n \<longrightarrow> transient_failure (post k))
     \<and> (transient_failure (post n) \<longrightarrow> n = R)"
proof (induction "R - i" arbitrary: i acts)
  case 0
  then have iR: "i = R" by simp
  have "retry_loop post jitter (int R) [R..<Suc R] acts = (post R, acts @ backoff_log jitter R R)"
    by (cases "post R") (auto simp: backoff_log_def)
  with iR show ?case by auto
next
  case (Suc d)
  then have lt: "i < R" and d: "d = R - Suc i" and le: "Suc i \<le> R" by auto
  have upt: "[i..<Suc R] = i # [Suc i..<Suc R]" using lt by (simp add: upt_conv_Cons)
  show ?case
  proof (cases "transient_failure (post i)")
    case False
    then have "retry_loop post jitter (int R) [i..<Suc R] acts = (post i, acts @ backoff_log jitter i i)"
      unfolding upt by (cases "post i") (auto simp: backoff_log_def transient_failure_def)
    with False lt show ?thesis by (intro exI[of _ i]) auto
  next
    case True
    then obtain e where e: "post i = Inl e" "is_transient e"
      by (cases "post i") (auto simp: transient_failure_def)
    from Suc.hyps(1)[OF d le, of "acts @ [Post i, Sleep (2 ^ i + jitter i)]"]
    obtain n where n: "Suc i \<le> n" "n \<le> R"
      "retry_loop post jitter (int R) [Suc i..<Suc R] (acts @ [Post i, Sleep (2 ^ i + jitter i)])
         = (post n, (acts @ [Post i, Sleep (2 ^ i + jitter i)]) @ backoff_log jitter (Suc i) n)"
      "\<forall>k. Suc i \<le> k \<and> k < n \<longrightarrow> transient_failure (post k)"
      "transient_failure (post n) \<longrightarrow> n = R" by blast
    have bl: "backoff_log jitter i n = [Post i, Sleep (2 ^ i + jitter i)] @ backoff_log jitter (Suc i) n"
      using n(1) by (simp add: backoff_log_def upt_conv_Cons)
    have "retry_loop post jitter (int R) [i..<Suc R] acts = (post n, acts @ backoff_log jitter i n)"
      unfolding upt using e lt n(3) by (simp add: bl)
    moreover have "\<forall>k. i \<le> k \<and> k < n \<longrightarrow> transient_failure (post k)"
      using n(4) True by (metis Suc_leI le_neq_implies_less)
    ultimately show ?thesis using n(1,2,5) by (intro exI[of _ n]) auto
  qed
qed

lemma posts_backoff_log: "i \<le> n \<Longrightarrow> posts (backoff_log jitter i n) = Suc (n - i)"
proof (induction "n - i" arbitrary: i)
  case 0 then show ?case by (simp add: posts_def backoff_log_def)
next
  case (Suc d)
  then have "i < n" by simp
  then have "backoff_log jitter i n = [Post i, Sleep (1 * 2 ^ i + jitter i)] @ backoff_log jitter (Suc i) n"
    by (simp add: backoff_log_def upt_conv_Cons)
  moreover have "posts (backoff_log jitter (Suc i) n) = Suc (n - Suc i)"
    using Suc by (intro Suc.hyps(1)) auto
  ultimately show ?case using \<open>i < n\<close> by (simp add: posts_def)
qed


text \<open>
  C6: with \<open>R = retries \<ge> 0\<close> (3 when \<^verbatim>\<open>ARK_RETRIES\<close> is unset), the call makes
  attempts \<open>0, ..., n\<close> for some \<open>n \<le> R\<close>, so at most \<open>R + 1\<close>; each attempt
  before the last failed with a transient class and was followed by a sleep of
  \<open>1 * 2 ^ attempt + jitter\<close>; the call's outcome is the outcome of attempt \<open>n\<close>; a
  transient failure is the outcome only when \<open>n = R\<close>, that is after all retries; and an
  attempt that fails with any other class, all earlier ones having failed transiently,
  ends the call at once with that exception and no sleep after it. The bound on the
  number of attempts holds for every value of \<open>retries\<close>.
\<close>

theorem retry_bounded_backoff:
  assumes "0 \<le> retries"
  shows "\<exists>n. n \<le> nat retries
     \<and> request_with_retry post jitter retries = (post n, backoff_log jitter 0 n)
     \<and> posts (snd (request_with_retry post jitter retries)) = n + 1
     \<and> n + 1 \<le> nat retries + 1
     \<and> (\<forall>k<n. transient_failure (post k))
     \<and> (transient_failure (post n) \<longrightarrow> n = nat retries)
     \<and> (\<forall>k e. k \<le> nat retries \<and> post k = Inl e \<and> \<not> is_transient e
            \<and> (\<forall>i<k. transient_failure (post i))
          \<longrightarrow> request_with_retry post jitter retries = (Inl e, backoff_log jitter 0 k))
     \<and> getenv_retries None = 3"
proof -
  define R where "R = nat retries"
  have r: "retries = int R" "nat (retries + 1) = Suc R"
    using assms by (auto simp: R_def)
  from retry_loop_upt[of 0 R post jitter "[]"]
  obtain n where n: "n \<le> R"
    "retry_loop post jitter (int R) [0..<Suc R] [] = (post n, backoff_log jitter 0 n)"
    "\<forall>k. k < n \<longrightarrow> transient_failure (post k)"
    "transient_failure (post n) \<longrightarrow> n = R" by auto
  have run: "request_with_retry post jitter retries = (post n, backoff_log jitter 0 n)"
    unfolding request_with_retry_def r(2) using n(2) r(1) by simp
  have cnt: "posts (snd (request_with_retry post jitter retries)) = n + 1"
    by (simp add: run posts_backoff_log)
  have imm: "request_with_retry post jitter retries = (Inl e, backoff_log jitter 0 k)"
    if k: "k \<le> R" "post k = Inl e" "\<not> is_transient e" "\<forall>i<k. transient_failure (post i)"
    for k e
  proof -
    have nt: "\<not> transient_failure (post k)" using k(2,3) by (simp add: transient_failure_def)
    have "\<not> k < n" using n(3) nt by blast
    moreover have "\<not> n < k"
    proof
      assume "n < k"
      then have "transient_failure (post n)" using k(4) by blast
      then have "n = R" using n(4) by blast
      with \<open>n < k\<close> k(1) show False by simp
    qed
    ultimately have "n = k" by simp
    then show ?thesis using run k(2) by simp
  qed
  have imm': "\<forall>k e. k \<le> nat retries \<and> post k = Inl e \<and> \<not> is_transient e
            \<and> (\<forall>i<k. transient_failure (post i))
          \<longrightarrow> request_with_retry post jitter retries = (Inl e, backoff_log jitter 0 k)"
    using imm unfolding R_def by blast
  have c1: "n \<le> nat retries" using n(1) by (simp add: R_def)
  have c4: "n + 1 \<le> nat retries + 1" using c1 by simp
  have c5: "\<forall>k<n. transient_failure (post k)" using n(3) by blast
  have c6: "transient_failure (post n) \<longrightarrow> n = nat retries" using n(4) by (simp add: R_def)
  have c8: "getenv_retries None = 3" by (simp add: getenv_retries_def get_or_def)
  from c1 run cnt c4 c5 c6 imm' c8 show ?thesis by blast
qed
theorem retry_bounded_backoff_witness:
  "(0::int) \<le> 3
   \<and> request_with_retry
        (\<lambda>k. if k < 2 then Inl (Exn ReadTimeout ''Read timed out.'') else Inr ''body'')
        (\<lambda>k. 1 / 4) 3
      = (Inr ''body'', [Post 0, Sleep (5 / 4), Post 1, Sleep (9 / 4), Post 2])
   \<and> request_with_retry
        (\<lambda>k. Inl (Exn ConnectionError ''Connection refused'') :: exn + string)
        (\<lambda>k. 0) 3
      = (Inl (Exn ConnectionError ''Connection refused''),
         [Post 0, Sleep 1, Post 1, Sleep 2, Post 2, Sleep 4, Post 3])
   \<and> request_with_retry
        (\<lambda>k. Inl (Exn RequestException ''401 Client Error'') :: exn + string)
        (\<lambda>k. 0) 3
      = (Inl (Exn RequestException ''401 Client Error''), [Post 0])"
proof -
  have u4: "[0..<nat (3 + 1)] = [0, 1, 2, 3]" by (simp add: upt_rec)
  have first: "request_with_retry
        (\<lambda>k. if k < 2 then Inl (Exn ReadTimeout ''Read timed out.'') else Inr ''body'')
        (\<lambda>k. 1 / 4) 3
      = (Inr ''body'', [Post 0, Sleep (5 / 4), Post 1, Sleep (9 / 4), Post 2])"
    using retry_bounded_backoff [of 3
      "\<lambda>k. if k < 2 then Inl (Exn ReadTimeout ''Read timed out.'') else Inr ''body''" "\<lambda>k. 1 / 4"]
    unfolding request_with_retry_def u4 by simp
  have second: "request_with_retry
        (\<lambda>k. Inl (Exn ConnectionError ''Connection refused'') :: exn + string)
        (\<lambda>k. 0) 3
      = (Inl (Exn ConnectionError ''Connection refused''),
         [Post 0, Sleep 1, Post 1, Sleep 2, Post 2, Sleep 4, Post 3])"
    unfolding request_with_retry_def u4 by simp
  have third: "request_with_retry
        (\<lambda>k. Inl (Exn RequestException ''401 Client Error'') :: exn + string)
        (\<lambda>k. 0) 3
      = (Inl (Exn RequestException ''401 Client Error''), [Post 0])"
    unfolding request_with_retry_def u4 by simp
  from first second third show ?thesis by simp
qed
section \<open>Table repair\<close>

text \<open>
  Notions for the statements: a value that is a list; the number of cells of a row that
  is a list; a list of rows that are all lists of one length; a dictionary that is a
  table node with the list \<open>rs\<close> as its rows; the number of cells of the first row;
  and the repair of one row as the specification words it (every cell made a string,
  the row cut to \<open>n\<close> cells and filled up to \<open>n\<close> cells with empty strings).
  \<open>example_lib\<close> is a library for the examples: nothing decodes, no pattern matches.
\<close>

fun is_list :: "json \<Rightarrow> bool" where
  "is_list (JArr cells) = True"
| "is_list v = False"



definition table_node :: "(string \<times> json) list \<Rightarrow> json list \<Rightarrow> bool" where
  "table_node kvs rs \<longleftrightarrow>
     map_of kvs ''type'' = Some (JStr ''table'') \<and> map_of kvs ''rows'' = Some (JArr rs)"

definition first_row_len :: "json list \<Rightarrow> nat" where
  "first_row_len rs = (case rs of JArr cells # rest \<Rightarrow> length cells | _ \<Rightarrow> 0)"

definition spec_normalize_row :: "pylib \<Rightarrow> nat \<Rightarrow> json \<Rightarrow> json" where
  "spec_normalize_row L n r =
     (case r of
        JArr cells \<Rightarrow>
          JArr (map JStr (take n (map (cell_str L) cells) @ replicate (n - length cells) []))
      | _ \<Rightarrow> r)"

definition example_lib :: pylib where
  "example_lib = \<lparr>json_loads = (\<lambda>s. None), findall_fence_json = (\<lambda>s. []),
     findall_fence = (\<lambda>s. []), search_object = (\<lambda>s. None), str_of = (\<lambda>v. type_name v)\<rparr>"

subsection \<open>The padding loop and the rows that are kept\<close>

lemma pad_eq: "pad n row = row @ replicate (n - length row) []"
proof (induction n row rule: pad.induct)
  case (1 n row)
  show ?case
  proof (cases "length row < n")
    case True
    then have "n - length row = Suc (n - Suc (length row))" by simp
    with 1 True show ?thesis
      by (subst pad.simps) (simp add: replicate_app_Cons_same)
  next
    case False
    then show ?thesis by (subst pad.simps) simp
  qed
qed

lemma fit_eq: "fit n row = take n (row @ replicate (n - length row) [])"
  by (simp add: fit_def pad_eq)

lemma length_fit: "length (fit n row) = n"
  by (simp add: fit_eq)

lemma fit_same: "length row = n \<Longrightarrow> fit n row = row"
  by (simp add: fit_eq)

lemma fit_fit: "fit n (fit n row) = fit n row"
  by (rule fit_same) (rule length_fit)



lemma list_rows_strings: "list_rows L (map (\<lambda>x. JStr (f x)) xs) = []"
  by (induction xs) simp_all

lemma repair_table_rows:
  assumes "map_of kvs ''type'' = Some (JStr ''table'')" and "map_of kvs ''rows'' = Some (JArr rs)"
  shows "repair_item L (JObj kvs) =
     (case list_rows L rs of
        [] \<Rightarrow> Inr (JObj kvs)
      | first # others \<Rightarrow>
          Inr (JObj (AList.update ''rows'' (rows_json (map (fit (length first)) (first # others))) kvs)))"
proof (cases rs)
  case Nil
  with assms show ?thesis by (simp add: repair_item_def)
next
  case (Cons r rs')
  with assms show ?thesis by (simp add: repair_item_def Let_def split: list.splits)
qed




lemma list_rows_all_lists:
  "list_all is_list rs \<Longrightarrow>
   map (\<lambda>row. JArr (map JStr (fit n row))) (list_rows L rs) = map (spec_normalize_row L n) rs"
proof (induction rs)
  case Nil
  show ?case by simp
next
  case (Cons r rs)
  then obtain cells where r: "r = JArr cells" by (cases r) auto
  from Cons show ?case
    by (simp add: r spec_normalize_row_def fit_eq)
qed

lemma list_rows_first:
  "list_all is_list rs \<Longrightarrow> rs \<noteq> [] \<Longrightarrow>
   \<exists>first others. list_rows L rs = first # others \<and> length first = first_row_len rs"
  by (cases rs; cases "hd rs") (auto simp: first_row_len_def)




subsection \<open>Rows that are not lists\<close>

lemma list_rows_filter: "list_rows L (filter is_list rs) = list_rows L rs"
proof (induction rs)
  case Nil
  show ?case by simp
next
  case (Cons r rs)
  then show ?case by (cases r) simp_all
qed

lemma list_rows_Nil_iff: "list_rows L rs = [] \<longleftrightarrow> filter is_list rs = []"
proof (induction rs)
  case Nil
  show ?case by simp
next
  case (Cons r rs)
  then show ?case by (cases r) simp_all
qed

text \<open>
  C9, as stated: every row of a table node that is not a list is removed by the repair.
  That fails when no row at all is a list: the code replaces the rows only
  \<^verbatim>\<open>if normalized_rows:\<close>, so the node with the rows \<open>[5, "x"]\<close> comes back as
  it went in, both rows still there.
\<close>

theorem non_list_rows_kept_counterexample:
  "repair_item example_lib
      (JObj [(''type'', JStr ''table''), (''rows'', JArr [JInt 5, JStr ''x''])])
    = Inr (JObj [(''type'', JStr ''table''), (''rows'', JArr [JInt 5, JStr ''x''])])"
  by (simp add: repair_item_def)

text \<open>
  C9, amended: when at least one row of the table node is a list, the repaired table
  holds exactly the rows that are lists, in their order and normalised to the length of
  the first of them, and every other row is gone, so the table has fewer rows as soon as
  one row is not a list; when no row is a list, the node is left as it is.
\<close>

theorem non_list_rows_dropped:
  "table_node kvs rs \<longrightarrow>
     (if filter is_list rs = [] then repair_item L (JObj kvs) = Inr (JObj kvs)
      else repair_item L (JObj kvs)
             = Inr (JObj (AList.update ''rows''
                 (JArr (map (spec_normalize_row L (first_row_len (filter is_list rs)))
                          (filter is_list rs))) kvs))
           \<and> length (filter is_list rs) \<le> length rs
           \<and> (length (filter is_list rs) < length rs \<longleftrightarrow> (\<exists>r\<in>set rs. \<not> is_list r)))"
proof (intro impI)
  assume "table_node kvs rs"
  then have ty: "map_of kvs ''type'' = Some (JStr ''table'')"
    and rw: "map_of kvs ''rows'' = Some (JArr rs)"
    by (simp_all add: table_node_def)
  let ?ls = "filter is_list rs"
  show "if ?ls = [] then repair_item L (JObj kvs) = Inr (JObj kvs)
      else repair_item L (JObj kvs)
             = Inr (JObj (AList.update ''rows''
                 (JArr (map (spec_normalize_row L (first_row_len ?ls)) ?ls)) kvs))
           \<and> length ?ls \<le> length rs
           \<and> (length ?ls < length rs \<longleftrightarrow> (\<exists>r\<in>set rs. \<not> is_list r))"
  proof (cases "?ls = []")
    case True
    then have "list_rows L rs = []" by (simp add: list_rows_Nil_iff)
    with True show ?thesis by (simp add: repair_table_rows[OF ty rw])
  next
    case False
    have al: "list_all is_list ?ls" by (simp add: list_all_iff)
    from list_rows_first[OF al False, of L] obtain first others where
      f: "list_rows L rs = first # others" "length first = first_row_len ?ls"
      by (auto simp: list_rows_filter)
    have "rows_json (map (fit (length first)) (first # others))
            = JArr (map (spec_normalize_row L (first_row_len ?ls)) ?ls)"
      using list_rows_all_lists[OF al, of "first_row_len ?ls" L] f
      by (simp add: rows_json_def comp_def list_rows_filter)
    then have 1: "repair_item L (JObj kvs)
             = Inr (JObj (AList.update ''rows''
                 (JArr (map (spec_normalize_row L (first_row_len ?ls)) ?ls)) kvs))"
      by (simp add: repair_table_rows[OF ty rw] f(1))
    have 2: "length ?ls \<le> length rs" by simp
    have 3: "length ?ls < length rs \<longleftrightarrow> (\<exists>r\<in>set rs. \<not> is_list r)"
      by (metis filter_id_conv length_filter_less linorder_not_le nat_less_le 2)
    from False 1 2 3 show ?thesis by simp
  qed
qed

theorem non_list_rows_dropped_witness:
  "table_node [(''type'', JStr ''table''),
       (''rows'', JArr [JArr [JStr ''a'', JStr ''b''], JInt 5, JArr [JStr ''c'']])]
     [JArr [JStr ''a'', JStr ''b''], JInt 5, JArr [JStr ''c'']]
   \<and> repair_item example_lib (JObj [(''type'', JStr ''table''),
       (''rows'', JArr [JArr [JStr ''a'', JStr ''b''], JInt 5, JArr [JStr ''c'']])])
     = Inr (JObj [(''type'', JStr ''table''),
       (''rows'', JArr [JArr [JStr ''a'', JStr ''b''], JArr [JStr ''c'', JStr []]])])"
  using non_list_rows_dropped [of
     "[(''type'', JStr ''table''),
       (''rows'', JArr [JArr [JStr ''a'', JStr ''b''], JInt 5, JArr [JStr ''c'']])]"
     "[JArr [JStr ''a'', JStr ''b''], JInt 5, JArr [JStr ''c'']]" example_lib]
  by (simp add: table_node_def first_row_len_def spec_normalize_row_def cell_str_def)

section \<open>The line fallback of the text parser\<close>

lemma structured_content_falsy:
  "\<not> truthy (structured_content L text) \<Longrightarrow> structured_content L text = JArr []"
proof -
  have c: "\<not> truthy c \<Longrightarrow> content_of data = Some c \<Longrightarrow> c = JArr []" for c data
    by (auto simp: content_of_def split: json.splits option.splits if_splits)
  have cand: "\<not> truthy (parse_candidates L cs) \<Longrightarrow> parse_candidates L cs = JArr []" for cs
    by (induction cs) (auto split: option.splits dest: c)
  have h: "\<not> truthy (parse_heuristic L text) \<Longrightarrow> parse_heuristic L text = JArr []"
    by (auto simp: parse_heuristic_def split: option.splits dest: c)
  assume "\<not> truthy (structured_content L text)"
  then show ?thesis
    by (auto simp: structured_content_def Let_def h split: if_splits)
qed

lemma validate_items_length:
  "validate_items L items = Inr validated \<Longrightarrow> length validated = length items"
  by (induction items arbitrary: validated) (auto split: sum.splits)

lemma py_iter_truthy: "truthy v \<Longrightarrow> py_iter v = Inr items \<Longrightarrow> items \<noteq> []"
  by (cases v) auto

text \<open>
  What holds of the fallback: when the three structured attempts leave
  \<^verbatim>\<open>content_list\<close> empty, the result is one paragraph node for each line of the text
  that is not blank, in order, with the line stripped; and a result that is returned for
  a text with a non-blank line is never empty.
\<close>

lemma parse_content_fallback:
  "\<not> truthy (structured_content L text) \<Longrightarrow>
   parse_model_output_to_content L text = Inr (map paragraph_node (nonblank_lines text))"
  by (simp add: parse_model_output_to_content_def structured_content_falsy)

lemma parse_content_nonempty:
  assumes "nonblank_lines text \<noteq> []" and "parse_model_output_to_content L text = Inr nodes"
  shows "nodes \<noteq> []"
proof (cases "truthy (structured_content L text)")
  case False
  with assms show ?thesis by (auto simp: parse_content_fallback)
next
  case True
  from assms(2) obtain items validated where
    i: "py_iter (structured_content L text) = Inr items" "validate_items L items = Inr validated"
    by (auto simp: parse_model_output_to_content_def split: sum.splits)
  have "validated \<noteq> []"
    using py_iter_truthy[OF True i(1)] validate_items_length[OF i(2)] by auto
  with assms(2) i show ?thesis
    by (simp add: parse_model_output_to_content_def)
qed

text \<open>
  A library for one example: \<^verbatim>\<open>json.loads\<close> decodes the text \<open>{"content": 5}\<close> to
  the dictionary with the one key \<^verbatim>\<open>content\<close> and the integer 5, and nothing else.
\<close>

definition scalar_content_lib :: pylib where
  \<open>scalar_content_lib = example_lib\<lparr>json_loads :=
     (\<lambda>s. if s = ''{"content": 5}'' then Some (JObj [(''content'', JInt 5)]) else None)\<rparr>\<close>

text \<open>
  C5: in text mode the parser returns one paragraph node per non-blank line when the
  structured attempts fail, never an empty batch for a text with a non-blank line, and
  never raises. The two lemmas above are the first two parts. The last part fails on
  the code: the text \<open>{"content": 5}\<close> has a non-blank line and decodes at the first
  attempt, \<^verbatim>\<open>content_list\<close> is the integer 5, and the validation loop
  \<^verbatim>\<open>for item in content_list\<close>, which stands outside every \<^verbatim>\<open>try\<close>, raises
  \<^verbatim>\<open>TypeError\<close>.
\<close>

theorem parse_content_raises_on_scalar_content:
  \<open>nonblank_lines ''{"content": 5}'' = [''{"content": 5}'']
   \<and> parse_model_output_to_content scalar_content_lib ''{"content": 5}''
       = Inl (Exn TypeError (quoted ''int'' @ '' object is not iterable''))\<close>
proof -
  have nb: \<open>nonblank_lines ''{"content": 5}'' = [''{"content": 5}'']\<close>
    by (simp add: nonblank_lines_def splitlines_def strip_def is_linebreak_def isspace_def)
  have sc: \<open>structured_content scalar_content_lib ''{"content": 5}'' = JInt 5\<close>
    by (simp add: structured_content_def parse_direct_def scalar_content_lib_def
        example_lib_def content_of_def)
  show ?thesis
    using nb by (simp add: parse_model_output_to_content_def sc)
qed

section \<open>The names of the images of a PDF are distinct\<close>

lemma digit_char_is_digit: "d < 10 \<Longrightarrow> is_digit (digit_char d)"
  by (simp add: is_digit_def digit_char_def less_eq_char_def)

lemma digit_char_value: "d < 10 \<Longrightarrow> of_char (digit_char d) - 48 = d"
  by (simp add: digit_char_def)

lemma str_nat_digits: "list_all is_digit (str_nat n)"
proof (induction n rule: str_nat.induct)
  case (1 n)
  show ?case
  proof (cases "n < 10")
    case True
    then show ?thesis by (subst str_nat.simps) (simp add: digit_char_is_digit)
  next
    case False
    with 1 show ?thesis by (subst str_nat.simps) (simp add: digit_char_is_digit)
  qed
qed

lemma int_of_digits_snoc:
  "int_of_digits (ds @ [c]) = 10 * int_of_digits ds + (of_char c - 48)"
  by (simp add: int_of_digits_def)

lemma int_of_str_nat: "int_of_digits (str_nat n) = n"
proof (induction n rule: str_nat.induct)
  case (1 n)
  show ?case
  proof (cases "n < 10")
    case True
    then show ?thesis
      by (subst str_nat.simps) (simp add: int_of_digits_def digit_char_value)
  next
    case False
    with 1 have "int_of_digits (str_nat (n div 10)) = n div 10" by simp
    with False show ?thesis
      by (subst str_nat.simps) (simp add: int_of_digits_snoc digit_char_value)
  qed
qed

text \<open>
  The page number and the slot that a name carries: slot 0 for the rendering of the
  page, slot \<open>k + 1\<close> for the embedded image number \<open>k\<close>.
\<close>

definition leading_number :: "string \<Rightarrow> nat" where
  "leading_number s = int_of_digits (takeWhile is_digit s)"

definition image_slot :: "string \<Rightarrow> nat \<times> nat" where
  "image_slot nm =
     (leading_number (drop 5 nm),
      (case dropWhile is_digit (drop 5 nm) of
         c # d # rest \<Rightarrow> if d = CHR ''i'' then Suc (leading_number (drop 3 rest)) else 0
       | _ \<Rightarrow> 0))"

lemma leading_str_nat:
  "\<not> is_digit c \<Longrightarrow> leading_number (str_nat n @ c # rest) = n"
  "\<not> is_digit c \<Longrightarrow> dropWhile is_digit (str_nat n @ c # rest) = c # rest"
  using str_nat_digits[of n]
  by (simp_all add: leading_number_def list_all_iff takeWhile_append2 dropWhile_append2 int_of_str_nat)

lemma not_digits: "\<not> is_digit CHR ''-''" "\<not> is_digit CHR ''.''"
  by (simp_all add: is_digit_def less_eq_char_def)

lemma image_slot_embedded: "image_slot (embedded_name p i ext) = (p + 1, Suc (i + 1))"
proof -
  have "drop 5 (embedded_name p i ext)
          = str_nat (p + 1) @ CHR ''-'' # (''img-'' @ str_nat (i + 1) @ CHR ''.'' # ext)"
    by (simp add: embedded_name_def)
  then show ?thesis
    by (simp add: image_slot_def leading_str_nat not_digits)
qed

lemma image_slot_full: "image_slot (full_name p) = (p + 1, 0)"
proof -
  have "drop 5 (full_name p) = str_nat (p + 1) @ CHR ''-'' # ''full.png''"
    by (simp add: full_name_def)
  then show ?thesis
    by (simp add: image_slot_def leading_str_nat not_digits)
qed

definition slot_of :: "path \<Rightarrow> nat \<times> nat" where
  "slot_of p = image_slot (name p)"

lemma page_images_slots:
  "map slot_of (page_images out_dir p images) = map (\<lambda>i. (p + 1, Suc (i + 1))) [0..<length images]"
proof -
  have "map slot_of (page_images out_dir p images)
          = map ((\<lambda>i. (p + 1, Suc (i + 1))) \<circ> fst) (enumerate 0 images)"
    by (simp add: page_images_def slot_of_def image_slot_embedded split_beta comp_def)
  also have "\<dots> = map (\<lambda>i. (p + 1, Suc (i + 1))) (map fst (enumerate 0 images))"
    by (simp only: map_map)
  also have "map fst (enumerate 0 images) = [0..<length images]"
    by (simp add: map_fst_enumerate)
  finally show ?thesis .
qed

lemma embedded_slots:
  "distinct (map slot_of (concat (map (\<lambda>(page_index, images). page_images out_dir page_index images)
                                   (enumerate off doc))))
   \<and> (\<forall>x\<in>set (concat (map (\<lambda>(page_index, images). page_images out_dir page_index images)
                                   (enumerate off doc))).
         off < fst (slot_of x) \<and> 0 < snd (slot_of x))"
proof (induction doc arbitrary: off)
  case Nil
  show ?case by simp
next
  case (Cons images doc)
  let ?here = "page_images out_dir off images"
  let ?rest = "concat (map (\<lambda>(page_index, images). page_images out_dir page_index images)
                           (enumerate (Suc off) doc))"
  have eq: "concat (map (\<lambda>(page_index, images). page_images out_dir page_index images)
                        (enumerate off (images # doc))) = ?here @ ?rest"
    by simp
  have d1: "distinct (map slot_of ?here)"
    unfolding page_images_slots by (simp add: distinct_map inj_on_def)
  have a1: "fst y = off + 1 \<and> 0 < snd y" if "y \<in> set (map slot_of ?here)" for y
    using that unfolding page_images_slots by auto
  have s2: "\<forall>x\<in>set ?rest. Suc off < fst (slot_of x) \<and> 0 < snd (slot_of x)"
    and d2: "distinct (map slot_of ?rest)"
    using Cons.IH[of "Suc off"] by blast+
  have a2: "Suc off < fst y \<and> 0 < snd y" if "y \<in> set (map slot_of ?rest)" for y
  proof -
    from that obtain x where "x \<in> set ?rest" and "y = slot_of x" by auto
    with s2 show ?thesis by blast
  qed
  have dj: "set (map slot_of ?here) \<inter> set (map slot_of ?rest) = {}"
  proof (rule equals0I)
    fix y assume "y \<in> set (map slot_of ?here) \<inter> set (map slot_of ?rest)"
    then have "fst y = off + 1" and "Suc off < fst y" using a1 a2 by blast+
    then show False by simp
  qed
  have d: "distinct (map slot_of (?here @ ?rest))"
    using d1 d2 dj by (simp only: map_append distinct_append)
  have b: "off < fst (slot_of x) \<and> 0 < snd (slot_of x)" if "x \<in> set (?here @ ?rest)" for x
  proof -
    from that consider "slot_of x \<in> set (map slot_of ?here)" | "slot_of x \<in> set (map slot_of ?rest)"
      by auto
    then show ?thesis
    proof cases
      case 1
      from a1[OF 1] show ?thesis by simp
    next
      case 2
      from a2[OF 2] show ?thesis by simp
    qed
  qed
  show ?case unfolding eq using d b by blast
qed

lemma full_slots:
  "map slot_of (render_full_pages doc out_dir) = map (\<lambda>p. (p + 1, 0)) [0..<length doc]"
  by (simp add: render_full_pages_def slot_of_def image_slot_full comp_def)

lemma pdf_slots_distinct:
  "distinct (map slot_of (save_embedded_images doc out_dir @ render_full_pages doc out_dir))"
proof -
  note e = embedded_slots[of out_dir 0 doc, folded save_embedded_images_def]
  have df: "distinct (map slot_of (render_full_pages doc out_dir))"
    unfolding full_slots by (simp add: distinct_map inj_on_def)
  have de: "distinct (map slot_of (save_embedded_images doc out_dir))" using e by (rule conjunct1)
  have p: "0 < snd y" if "y \<in> set (map slot_of (save_embedded_images doc out_dir))" for y
  proof -
    from that obtain x where "x \<in> set (save_embedded_images doc out_dir)" and "y = slot_of x"
      by auto
    with e show ?thesis by blast
  qed
  have z: "snd y = 0" if "y \<in> set (map slot_of (render_full_pages doc out_dir))" for y
    using that unfolding full_slots by auto
  have dj: "set (map slot_of (save_embedded_images doc out_dir))
              \<inter> set (map slot_of (render_full_pages doc out_dir)) = {}"
  proof (rule equals0I)
    fix y assume "y \<in> set (map slot_of (save_embedded_images doc out_dir))
                      \<inter> set (map slot_of (render_full_pages doc out_dir))"
    then have "0 < snd y" and "snd y = 0" using p z by blast+
    then show False by simp
  qed
  show ?thesis using de df dj by (simp only: map_append distinct_append)
qed

lemma pdf_names_distinct:
  assumes "source_images doc tmp_img_dir source_mode = (embedded_images, full_pages)"
  shows "distinct (map name (embedded_images @ full_pages))"
proof -
  let ?A = "save_embedded_images doc tmp_img_dir" and ?B = "render_full_pages doc tmp_img_dir"
  have "distinct (map image_slot (map name (?A @ ?B)))"
    using pdf_slots_distinct[of doc tmp_img_dir]
    by (simp only: slot_of_def[abs_def] map_map comp_def)
  then have d: "distinct (map name (?A @ ?B))"
    by (rule distinct_map[THEN iffD1, THEN conjunct1])
  then have dA: "distinct (map name ?A)" and dB: "distinct (map name ?B)"
    by simp_all
  have e: "embedded_images = (if source_mode = ''both'' \<or> source_mode = ''embedded'' then ?A else [])"
    and f: "full_pages = (if source_mode = ''both'' \<or> source_mode = ''page'' then ?B else [])"
    using assms by (simp_all add: source_images_def)
  show ?thesis
  proof (cases "embedded_images = []")
    case True
    then show ?thesis using f dB by (cases "full_pages = []") (simp_all split: if_splits)
  next
    case False
    then have ea: "embedded_images = ?A" using e by (simp split: if_splits)
    show ?thesis
    proof (cases "full_pages = []")
      case True
      then show ?thesis using ea dA by simp
    next
      case False
      then have "full_pages = ?B" using f by (simp split: if_splits)
      with ea d show ?thesis by simp
    qed
  qed
qed

section \<open>Reading a run\<close>

text \<open>
  Notions for the statements about runs: the images submitted, the images whose result
  arrived, and the events sent, each in the order of the trace; whether the driver saw
  \<^verbatim>\<open>stop\<close>, and what it did after it first saw it; the parts of an image's outcome;
  an outcome that is a success, namely no error text and data that is not empty; and
  the entries \<^verbatim>\<open>image_results\<close> gets for a list of arrived results.
\<close>

definition submits :: "action list \<Rightarrow> path list" where
  "submits tr = concat (map (\<lambda>a. case a of Submit p \<Rightarrow> [p] | _ \<Rightarrow> []) tr)"

definition results :: "action list \<Rightarrow> path list" where
  "results tr = concat (map (\<lambda>a. case a of Result p \<Rightarrow> [p] | _ \<Rightarrow> []) tr)"

definition emitted :: "action list \<Rightarrow> (string \<times> event_data) list" where
  "emitted tr = concat (map (\<lambda>a. case a of Emit ev d \<Rightarrow> [(ev, d)] | _ \<Rightarrow> []) tr)"

definition halted :: "action list \<Rightarrow> bool" where
  "halted tr = (Halt \<in> set tr)"

definition after_halt :: "action list \<Rightarrow> action list" where
  "after_halt tr = tl (dropWhile (\<lambda>a. a \<noteq> Halt) tr)"

definition err_of :: "env \<Rightarrow> path \<Rightarrow> string option" where
  "err_of E p = fst (snd (process_one E p))"

definition data_of :: "env \<Rightarrow> path \<Rightarrow> json list option" where
  "data_of E p = fst (snd (snd (process_one E p)))"

definition usage_of :: "env \<Rightarrow> path \<Rightarrow> usage option" where
  "usage_of E p = snd (snd (snd (process_one E p)))"

definition succeeded :: "env \<Rightarrow> path \<Rightarrow> bool" where
  "succeeded E p = (\<not> str_truthy (err_of E p) \<and> data_truthy (data_of E p))"

definition kept :: "env \<Rightarrow> path list \<Rightarrow> (string \<times> json list) list" where
  "kept E ps = map (\<lambda>p. (name p, the (data_of E p))) (filter (succeeded E) ps)"

definition step_events :: "env \<Rightarrow> nat \<Rightarrow> path list \<Rightarrow> (string \<times> event_data) list" where
  "step_events E tot ps =
     map (\<lambda>(k, p). (''step'', step_data (batch_name E) (Suc k) tot p (err_of E p) (usage_of E p)))
       (enumerate 0 ps)"

subsection \<open>Projections of a trace\<close>

lemma submits_simps [simp]:
  "submits [] = []" "submits (tr @ tr') = submits tr @ submits tr'"
  "submits (Submit p # tr) = p # submits tr" "submits (Result p # tr) = submits tr"
  "submits (Emit ev d # tr) = submits tr" "submits (Halt # tr) = submits tr"
  by (simp_all add: submits_def)

lemma results_simps [simp]:
  "results [] = []" "results (tr @ tr') = results tr @ results tr'"
  "results (Submit p # tr) = results tr" "results (Result p # tr) = p # results tr"
  "results (Emit ev d # tr) = results tr" "results (Halt # tr) = results tr"
  by (simp_all add: results_def)

lemma emitted_simps [simp]:
  "emitted [] = []" "emitted (tr @ tr') = emitted tr @ emitted tr'"
  "emitted (Submit p # tr) = emitted tr" "emitted (Result p # tr) = emitted tr"
  "emitted (Emit ev d # tr) = (ev, d) # emitted tr" "emitted (Halt # tr) = emitted tr"
  by (simp_all add: emitted_def)

lemma halted_simps [simp]:
  "halted [] = False" "halted (tr @ tr') = (halted tr \<or> halted tr')"
  "halted (Submit p # tr) = halted tr" "halted (Result p # tr) = halted tr"
  "halted (Emit ev d # tr) = halted tr" "halted (Halt # tr) = True"
  by (auto simp: halted_def)


lemma after_halt_simps [simp]:
  "after_halt [] = []" "after_halt (Submit p # tr) = after_halt tr"
  "after_halt (Result p # tr) = after_halt tr" "after_halt (Emit ev d # tr) = after_halt tr"
  "after_halt (Halt # tr) = tr"
  by (simp_all add: after_halt_def)

subsection \<open>The outcome of one image\<close>

lemma process_one_path: "fst (process_one E p) = p"
  by (simp add: process_one_def split: sum.splits prod.splits)

lemma process_one_parts: "process_one E p = (p, err_of E p, data_of E p, usage_of E p)"
  using process_one_path[of E p]
  by (cases "process_one E p") (simp add: err_of_def data_of_def usage_of_def)

lemma record_result_eq:
  "record_result E tot (process_one E p) s =
     s\<lparr>done_count := done_count s + 1,
       usage_totals := add_usage (usage_totals s) (usage_of E p),
       trace := trace s @ [Result p,
          Emit ''step'' (step_data (batch_name E) (done_count s + 1) tot p (err_of E p) (usage_of E p))],
       image_results :=
         (if succeeded E p then image_results s @ [(name p, the (data_of E p))]
          else image_results s)\<rparr>"
  by (subst process_one_parts) (simp add: record_result_def succeeded_def)

lemma kept_snoc:
  "kept E (ps @ [p]) = (if succeeded E p then kept E ps @ [(name p, the (data_of E p))] else kept E ps)"
  by (simp add: kept_def)

lemma step_events_snoc:
  "step_events E tot (ps @ [p]) =
     step_events E tot ps
       @ [(''step'', step_data (batch_name E) (Suc (length ps)) tot p (err_of E p) (usage_of E p))]"
  by (simp add: step_events_def enumerate_append_eq)

subsection \<open>What every state of a run satisfies\<close>

text \<open>
  \<open>coherent\<close>: the results kept, the counter and the events sent are those of the
  results that have arrived, in the order of arrival. \<open>tracked\<close>: the images submitted
  and those still to visit are images of the batch, each image at most as often as the
  batch has it; a result arrives only for a submitted image; and as long as the driver
  has not seen \<^verbatim>\<open>stop\<close>, every submitted image is either running or has its result.
\<close>

definition coherent :: "env \<Rightarrow> nat \<Rightarrow> string \<times> event_data \<Rightarrow> pstate \<Rightarrow> bool" where
  "coherent E tot e0 s \<longleftrightarrow>
     image_results s = kept E (results (trace s))
   \<and> done_count s = length (results (trace s))
   \<and> emitted (trace s) = e0 # step_events E tot (results (trace s))"

definition tracked :: "path list \<Rightarrow> path list \<Rightarrow> pstate \<Rightarrow> bool" where
  "tracked imgs rest s \<longleftrightarrow>
     mset (submits (trace s)) + mset rest \<subseteq># mset imgs
   \<and> mset (results (trace s)) + mset (running s) \<subseteq># mset (submits (trace s))
   \<and> seen s \<subseteq> set (submits (trace s))
   \<and> set (submits (trace s)) \<union> set rest = set imgs
   \<and> (\<not> halted (trace s) \<longrightarrow>
        mset (results (trace s)) + mset (running s) = mset (submits (trace s)))"

lemma next_img_Some:
  "next_img sn ps = (Some nxt, it) \<Longrightarrow>
   \<exists>skipped. ps = skipped @ nxt # it \<and> set skipped \<subseteq> sn \<and> nxt \<notin> sn"
proof (induction ps)
  case Nil
  then show ?case by simp
next
  case (Cons p ps)
  show ?case
  proof (cases "p \<in> sn")
    case True
    with Cons obtain skipped where "ps = skipped @ nxt # it" "set skipped \<subseteq> sn" "nxt \<notin> sn"
      by auto
    with True show ?thesis by (intro exI[of _ "p # skipped"]) simp
  next
    case False
    with Cons.prems show ?thesis by (intro exI[of _ "[]"]) simp
  qed
qed

lemma next_img_None_seen: "next_img sn ps = (None, it) \<Longrightarrow> it = [] \<and> set ps \<subseteq> sn"
  by (induction ps) (auto split: if_splits)

lemma coherent_submit:
  "coherent E tot e0 s \<Longrightarrow>
   coherent E tot e0 (s\<lparr>clock := t, imgs_iter := it, running := rs, trace := trace s @ [Submit nxt]\<rparr>)"
  by (simp add: coherent_def)

lemma coherent_halt:
  "coherent E tot e0 s \<Longrightarrow> coherent E tot e0 (s\<lparr>clock := t, running := rs, trace := trace s @ [Halt]\<rparr>)"
  by (simp add: coherent_def)

lemma coherent_halt_fill:
  "coherent E tot e0 s \<Longrightarrow> coherent E tot e0 (s\<lparr>clock := t, trace := trace s @ [Halt]\<rparr>)"
  by (simp add: coherent_def)

lemma coherent_none:
  "coherent E tot e0 s \<Longrightarrow> coherent E tot e0 (s\<lparr>clock := t, imgs_iter := it\<rparr>)"
  by (simp add: coherent_def)

lemma coherent_ticks:
  "coherent E tot e0 s \<Longrightarrow> coherent E tot e0 (s\<lparr>ticks := k\<rparr>)"
  by (simp add: coherent_def)

lemma coherent_record:
  "coherent E tot e0 s \<Longrightarrow>
   coherent E tot e0 (record_result E tot (process_one E p) (s\<lparr>running := rs, seen := sn\<rparr>))"
  by (simp add: coherent_def record_result_eq kept_snoc step_events_snoc)

lemma coherent_record_seq:
  "coherent E tot e0 s \<Longrightarrow>
   coherent E tot e0 (record_result E tot (process_one E p)
      (s\<lparr>clock := t, seen := sn, trace := trace s @ [Submit p]\<rparr>))"
  by (simp add: coherent_def record_result_eq kept_snoc step_events_snoc)

lemma trackedI:
  assumes "mset (submits (trace s)) + mset rest \<subseteq># mset imgs"
    and "mset (results (trace s)) + mset (running s) \<subseteq># mset (submits (trace s))"
    and "seen s \<subseteq> set (submits (trace s))"
    and "set (submits (trace s)) \<union> set rest = set imgs"
    and "\<not> halted (trace s) \<Longrightarrow>
           mset (results (trace s)) + mset (running s) = mset (submits (trace s))"
  shows "tracked imgs rest s"
  using assms by (simp add: tracked_def)

lemma trackedD:
  assumes "tracked imgs rest s"
  shows "mset (submits (trace s)) + mset rest \<subseteq># mset imgs"
    and "mset (results (trace s)) + mset (running s) \<subseteq># mset (submits (trace s))"
    and "seen s \<subseteq> set (submits (trace s))"
    and "set (submits (trace s)) \<union> set rest = set imgs"
    and "\<not> halted (trace s) \<Longrightarrow>
           mset (results (trace s)) + mset (running s) = mset (submits (trace s))"
  using assms by (simp_all add: tracked_def)

lemma mset_le_trans_add: "(A::'a multiset) + B \<subseteq># M \<Longrightarrow> B' \<subseteq># B \<Longrightarrow> A + B' \<subseteq># M"
  by (meson subset_mset.add_left_mono subset_mset.order_trans)

lemma tracked_submit:
  assumes tr: "tracked imgs (imgs_iter s) s" and nx: "next_img (seen s) (imgs_iter s) = (Some nxt, it)"
  shows "tracked imgs it (s\<lparr>clock := t, imgs_iter := it, running := running s @ [nxt],
                            trace := trace s @ [Submit nxt]\<rparr>)"
proof (rule trackedI)
  let ?s' = "s\<lparr>clock := t, imgs_iter := it, running := running s @ [nxt],
                            trace := trace s @ [Submit nxt]\<rparr>"
  from next_img_Some[OF nx] obtain skipped where
    sk: "imgs_iter s = skipped @ nxt # it" "set skipped \<subseteq> seen s" by blast
  have "{#nxt#} + mset it \<subseteq># mset (imgs_iter s)" by (simp add: sk(1))
  from mset_le_trans_add[OF trackedD(1)[OF tr] this]
  show "mset (submits (trace ?s')) + mset it \<subseteq># mset imgs" by (simp add: ac_simps)
  show "mset (results (trace ?s')) + mset (running ?s') \<subseteq># mset (submits (trace ?s'))"
    using trackedD(2)[OF tr] by simp
  show "seen ?s' \<subseteq> set (submits (trace ?s'))" using trackedD(3)[OF tr] by auto
  have "set skipped \<subseteq> set (submits (trace s))" using sk(2) trackedD(3)[OF tr] by auto
  then show "set (submits (trace ?s')) \<union> set it = set imgs"
    using trackedD(4)[OF tr] by (auto simp: sk(1))
  show "mset (results (trace ?s')) + mset (running ?s') = mset (submits (trace ?s'))"
    if "\<not> halted (trace ?s')"
    using trackedD(5)[OF tr] that by simp
qed

lemma tracked_none:
  assumes tr: "tracked imgs (imgs_iter s) s" and nx: "next_img (seen s) (imgs_iter s) = (None, it)"
  shows "tracked imgs it (s\<lparr>clock := t, imgs_iter := it\<rparr>)"
proof (rule trackedI)
  let ?s' = "s\<lparr>clock := t, imgs_iter := it\<rparr>"
  from next_img_None_seen[OF nx] have it: "it = []" and sub: "set (imgs_iter s) \<subseteq> seen s"
    by auto
  have "{#} \<subseteq># mset (imgs_iter s)" by simp
  from mset_le_trans_add[OF trackedD(1)[OF tr] this]
  show "mset (submits (trace ?s')) + mset it \<subseteq># mset imgs" by (simp add: it)
  show "mset (results (trace ?s')) + mset (running ?s') \<subseteq># mset (submits (trace ?s'))"
    using trackedD(2)[OF tr] by simp
  show "seen ?s' \<subseteq> set (submits (trace ?s'))" using trackedD(3)[OF tr] by simp
  show "set (submits (trace ?s')) \<union> set it = set imgs"
    using trackedD(3,4)[OF tr] sub by (auto simp: it)
  show "mset (results (trace ?s')) + mset (running ?s') = mset (submits (trace ?s'))"
    if "\<not> halted (trace ?s')"
    using trackedD(5)[OF tr] that by simp
qed

lemma tracked_halt_fill:
  "tracked imgs rest s \<Longrightarrow> tracked imgs rest (s\<lparr>clock := t, trace := trace s @ [Halt]\<rparr>)"
  by (simp add: tracked_def)

lemma tracked_halt_pool:
  assumes tr: "tracked imgs rest s"
  shows "tracked imgs rest (s\<lparr>clock := t, running := [], trace := trace s @ [Halt]\<rparr>)"
proof (rule trackedI)
  let ?s' = "s\<lparr>clock := t, running := [], trace := trace s @ [Halt]\<rparr>"
  show "mset (submits (trace ?s')) + mset rest \<subseteq># mset imgs" using trackedD(1)[OF tr] by simp
  have "mset (results (trace s)) \<subseteq># mset (results (trace s)) + mset (running s)" by simp
  from subset_mset.order_trans[OF this trackedD(2)[OF tr]]
  show "mset (results (trace ?s')) + mset (running ?s') \<subseteq># mset (submits (trace ?s'))"
    by simp
  show "seen ?s' \<subseteq> set (submits (trace ?s'))" using trackedD(3)[OF tr] by simp
  show "set (submits (trace ?s')) \<union> set rest = set imgs" using trackedD(4)[OF tr] by simp
  show "mset (results (trace ?s')) + mset (running ?s') = mset (submits (trace ?s'))"
    if "\<not> halted (trace ?s')"
    using that by simp
qed

lemma tracked_ticks:
  "tracked imgs rest s \<Longrightarrow> tracked imgs rest (s\<lparr>ticks := k\<rparr>)"
  by (simp add: tracked_def)

lemma tracked_record:
  assumes tr: "tracked imgs rest s" and fut: "fut \<in> set (running s)"
  shows "tracked imgs rest (record_result E tot (process_one E fut)
            (s\<lparr>running := remove1 fut (running s), seen := insert fut (seen s)\<rparr>))"
proof (rule trackedI)
  let ?s' = "record_result E tot (process_one E fut)
            (s\<lparr>running := remove1 fut (running s), seen := insert fut (seen s)\<rparr>)"
  have t: "trace ?s' = trace s @ [Result fut,
          Emit ''step'' (step_data (batch_name E) (done_count s + 1) tot fut (err_of E fut) (usage_of E fut))]"
    and r: "running ?s' = remove1 fut (running s)" and sn: "seen ?s' = insert fut (seen s)"
    by (simp_all add: record_result_eq)
  have e: "mset (results (trace ?s')) + mset (running ?s')
             = mset (results (trace s)) + mset (running s)"
    using fut by (simp add: t r)
  have "fut \<in># mset (results (trace s)) + mset (running s)" using fut by simp
  then have "fut \<in># mset (submits (trace s))"
    using trackedD(2)[OF tr] by (meson mset_subset_eqD)
  then have in_sub: "fut \<in> set (submits (trace s))" by simp
  show "mset (submits (trace ?s')) + mset rest \<subseteq># mset imgs"
    using trackedD(1)[OF tr] by (simp add: t)
  show "mset (results (trace ?s')) + mset (running ?s') \<subseteq># mset (submits (trace ?s'))"
    unfolding e using trackedD(2)[OF tr] by (simp add: t)
  show "seen ?s' \<subseteq> set (submits (trace ?s'))"
    using trackedD(3)[OF tr] in_sub by (simp add: t sn)
  show "set (submits (trace ?s')) \<union> set rest = set imgs"
    using trackedD(4)[OF tr] by (simp add: t)
  show "mset (results (trace ?s')) + mset (running ?s') = mset (submits (trace ?s'))"
    if "\<not> halted (trace ?s')"
    unfolding e using trackedD(5)[OF tr] that by (simp add: t)
qed

lemma tracked_record_seq:
  assumes tr: "tracked imgs (p # rest) s" and run: "running s = []"
  shows "tracked imgs rest (record_result E tot (process_one E p)
            (s\<lparr>clock := t, seen := insert p (seen s), trace := trace s @ [Submit p]\<rparr>))"
proof (rule trackedI)
  let ?s' = "record_result E tot (process_one E p)
            (s\<lparr>clock := t, seen := insert p (seen s), trace := trace s @ [Submit p]\<rparr>)"
  have t: "trace ?s' = trace s @ [Submit p, Result p,
          Emit ''step'' (step_data (batch_name E) (done_count s + 1) tot p (err_of E p) (usage_of E p))]"
    and r: "running ?s' = []" and sn: "seen ?s' = insert p (seen s)"
    by (simp_all add: record_result_eq run)
  show "mset (submits (trace ?s')) + mset rest \<subseteq># mset imgs"
    using trackedD(1)[OF tr] by (simp add: t)
  show "mset (results (trace ?s')) + mset (running ?s') \<subseteq># mset (submits (trace ?s'))"
    using trackedD(2)[OF tr] by (simp add: t r run)
  show "seen ?s' \<subseteq> set (submits (trace ?s'))"
    using trackedD(3)[OF tr] by (auto simp: t sn)
  show "set (submits (trace ?s')) \<union> set rest = set imgs"
    using trackedD(4)[OF tr] by (auto simp: t)
  show "mset (results (trace ?s')) + mset (running ?s') = mset (submits (trace ?s'))"
    if "\<not> halted (trace ?s')"
    using trackedD(5)[OF tr] that by (simp add: t r run)
qed

lemma tracked_skip_seq:
  assumes tr: "tracked imgs (p # rest) s" and p: "p \<in> seen s"
  shows "tracked imgs rest s"
proof (rule trackedI)
  have "mset rest \<subseteq># mset (p # rest)" by simp
  from mset_le_trans_add[OF trackedD(1)[OF tr] this]
  show "mset (submits (trace s)) + mset rest \<subseteq># mset imgs" .
  show "mset (results (trace s)) + mset (running s) \<subseteq># mset (submits (trace s))"
    by (rule trackedD(2)[OF tr])
  show "seen s \<subseteq> set (submits (trace s))" by (rule trackedD(3)[OF tr])
  show "set (submits (trace s)) \<union> set rest = set imgs"
    using trackedD(3,4)[OF tr] p by auto
  show "mset (results (trace s)) + mset (running s) = mset (submits (trace s))"
    if "\<not> halted (trace s)"
    using trackedD(5)[OF tr] that by simp
qed

subsection \<open>The ways through one pass of each loop\<close>

abbreviation collected :: "env \<Rightarrow> nat \<Rightarrow> path \<Rightarrow> pstate \<Rightarrow> pstate" where
  "collected E tot fut s \<equiv>
     record_result E tot (process_one E fut)
       (s\<lparr>running := remove1 fut (running s), seen := insert fut (seen s)\<rparr>)"

abbreviation submitted :: "nat \<Rightarrow> path list \<Rightarrow> path \<Rightarrow> pstate \<Rightarrow> pstate" where
  "submitted t it nxt s \<equiv>
     s\<lparr>clock := t, imgs_iter := it, running := running s @ [nxt],
       trace := trace s @ [Submit nxt]\<rparr>"

lemma handle_done_cases:
  assumes "handle_done E tot (fut # rest) s = Some s'"
  obtains
    (halt) t where "wait_if_paused (control_getter E) (clock (collected E tot fut s)) = Some (True, t)"
      and "s' = (collected E tot fut s)\<lparr>clock := t, running := [],
                  trace := trace (collected E tot fut s) @ [Halt]\<rparr>"
  | (none) t it where
      "wait_if_paused (control_getter E) (clock (collected E tot fut s)) = Some (False, t)"
      and "next_img (seen (collected E tot fut s)) (imgs_iter (collected E tot fut s)) = (None, it)"
      and "handle_done E tot rest ((collected E tot fut s)\<lparr>clock := t, imgs_iter := it\<rparr>) = Some s'"
  | (some) t it nxt where
      "wait_if_paused (control_getter E) (clock (collected E tot fut s)) = Some (False, t)"
      and "next_img (seen (collected E tot fut s)) (imgs_iter (collected E tot fut s)) = (Some nxt, it)"
      and "handle_done E tot rest (submitted t it nxt (collected E tot fut s)) = Some s'"
proof -
  from assms obtain b t where
    g: "wait_if_paused (control_getter E) (clock (collected E tot fut s)) = Some (b, t)"
    by (auto simp: Let_def split: option.splits)
  show thesis
  proof (cases b)
    case True
    have "s' = (collected E tot fut s)\<lparr>clock := t, running := [],
                  trace := trace (collected E tot fut s) @ [Halt]\<rparr>"
      using assms g True by (simp add: Let_def)
    with g True show ?thesis by (auto intro: halt)
  next
    case False
    obtain nx it where
      n: "next_img (seen (collected E tot fut s)) (imgs_iter (collected E tot fut s)) = (nx, it)"
      by fastforce
    show ?thesis
    proof (cases nx)
      case None
      have "handle_done E tot rest ((collected E tot fut s)\<lparr>clock := t, imgs_iter := it\<rparr>) = Some s'"
        using assms g False n None by (simp add: Let_def)
      with g False n None show ?thesis by (auto intro: none)
    next
      case (Some nxt)
      have "handle_done E tot rest (submitted t it nxt (collected E tot fut s)) = Some s'"
        using assms g False n Some by (simp add: Let_def)
      with g False n Some show ?thesis by (auto intro: some)
    qed
  qed
qed

lemma fill_cases:
  assumes "fill E s = Some s'"
  obtains
    (full) "\<not> int (length (running s)) < max_workers E" and "s' = s"
  | (halt) t where "int (length (running s)) < max_workers E"
      and "wait_if_paused (control_getter E) (clock s) = Some (True, t)"
      and "s' = s\<lparr>clock := t, trace := trace s @ [Halt]\<rparr>"
  | (none) t it where "int (length (running s)) < max_workers E"
      and "wait_if_paused (control_getter E) (clock s) = Some (False, t)"
      and "next_img (seen s) (imgs_iter s) = (None, it)"
      and "s' = s\<lparr>clock := t, imgs_iter := it\<rparr>"
  | (some) t it nxt where "int (length (running s)) < max_workers E"
      and "wait_if_paused (control_getter E) (clock s) = Some (False, t)"
      and "next_img (seen s) (imgs_iter s) = (Some nxt, it)"
      and "fill E (submitted t it nxt s) = Some s'"
proof (cases "int (length (running s)) < max_workers E")
  case False
  with assms have "s' = s" by (simp add: fill.simps)
  with False show ?thesis by (auto intro: full)
next
  case lt: True
  with assms obtain b t where g: "wait_if_paused (control_getter E) (clock s) = Some (b, t)"
    by (subst (asm) fill.simps) (auto split: option.splits)
  show ?thesis
  proof (cases b)
    case True
    have "s' = s\<lparr>clock := t, trace := trace s @ [Halt]\<rparr>"
      using assms g True lt by (simp add: fill.simps)
    with g True lt show ?thesis by (auto intro: halt)
  next
    case False
    obtain nx it where n: "next_img (seen s) (imgs_iter s) = (nx, it)" by fastforce
    show ?thesis
    proof (cases nx)
      case None
      have "s' = s\<lparr>clock := t, imgs_iter := it\<rparr>"
        using assms g False n lt None by (simp add: fill.simps)
      with g False n lt None show ?thesis by (auto intro: none)
    next
      case (Some nxt)
      have "fill E (submitted t it nxt s) = Some s'"
        using assms g False n lt Some by (subst (asm) fill.simps) simp
      with g False n lt Some show ?thesis by (auto intro: some)
    qed
  qed
qed

lemma run_sequential_cases:
  assumes "run_sequential E tot (p # rest) s = Some s'"
  obtains
    (skip) "p \<in> seen s" and "run_sequential E tot rest s = Some s'"
  | (halt) t where "p \<notin> seen s"
      and "wait_if_paused (control_getter E) (clock s) = Some (True, t)"
      and "s' = s\<lparr>clock := t, trace := trace s @ [Halt]\<rparr>"
  | (go) t where "p \<notin> seen s"
      and "wait_if_paused (control_getter E) (clock s) = Some (False, t)"
      and "run_sequential E tot rest
             (record_result E tot (process_one E p)
                (s\<lparr>clock := t, seen := insert p (seen s), trace := trace s @ [Submit p]\<rparr>)) = Some s'"
proof (cases "p \<in> seen s")
  case True
  with assms have "run_sequential E tot rest s = Some s'" by simp
  with True show ?thesis by (auto intro: skip)
next
  case ns: False
  with assms obtain b t where g: "wait_if_paused (control_getter E) (clock s) = Some (b, t)"
    by (auto split: option.splits)
  show ?thesis
  proof (cases b)
    case True
    have "s' = s\<lparr>clock := t, trace := trace s @ [Halt]\<rparr>"
      using assms g True ns by simp
    with g True ns show ?thesis by (auto intro: halt)
  next
    case False
    have "run_sequential E tot rest
             (record_result E tot (process_one E p)
                (s\<lparr>clock := t, seen := insert p (seen s), trace := trace s @ [Submit p]\<rparr>)) = Some s'"
      using assms g False ns by simp
    with g False ns show ?thesis by (auto intro: go)
  qed
qed

lemma run_pool_cases:
  assumes "run_pool E tot s = Some s'"
  obtains
    (idle) "running s = []" and "s' = s"
  | (pass) s1 where "running s \<noteq> []"
      and "handle_done E tot (done_set (schedule E (ticks s)) (running s))
             (s\<lparr>ticks := ticks s + 1\<rparr>) = Some s1"
      and "run_pool E tot s1 = Some s'"
proof (cases "running s = []")
  case True
  with assms have "s' = s" by (simp add: run_pool.simps)
  with True show ?thesis by (auto intro: idle)
next
  case False
  with assms obtain s1 where
    "handle_done E tot (done_set (schedule E (ticks s)) (running s))
             (s\<lparr>ticks := ticks s + 1\<rparr>) = Some s1" "run_pool E tot s1 = Some s'"
    by (subst (asm) run_pool.simps) (auto split: option.splits)
  with False show ?thesis by (auto intro: pass)
qed

subsection \<open>The loops keep the state sound\<close>

definition sound :: "env \<Rightarrow> nat \<Rightarrow> string \<times> event_data \<Rightarrow> path list \<Rightarrow> path list \<Rightarrow> pstate \<Rightarrow> bool" where
  "sound E tot e0 imgs rest s \<longleftrightarrow> coherent E tot e0 s \<and> tracked imgs rest s"

definition drained :: "pstate \<Rightarrow> bool" where
  \<comment> \<open>a pool that has not seen \<^verbatim>\<open>stop\<close> runs dry only when no image is left\<close>
  "drained s \<longleftrightarrow> (\<not> halted (trace s) \<and> running s = [] \<longrightarrow> imgs_iter s = [])"

lemma sound_sequential:
  "sound E tot e0 imgs ps s \<Longrightarrow> running s = [] \<Longrightarrow> run_sequential E tot ps s = Some s' \<Longrightarrow>
   \<exists>rest. sound E tot e0 imgs rest s' \<and> running s' = [] \<and> (\<not> halted (trace s') \<longrightarrow> rest = [])"
proof (induction ps arbitrary: s)
  case Nil
  then show ?case by auto
next
  case (Cons p ps)
  from Cons.prems(3) show ?case
  proof (cases rule: run_sequential_cases)
    case skip
    have "sound E tot e0 imgs ps s"
      using Cons.prems(1) skip(1) by (auto simp: sound_def intro: tracked_skip_seq)
    from Cons.IH[OF this Cons.prems(2) skip(2)] show ?thesis .
  next
    case (halt t)
    have "sound E tot e0 imgs (p # ps) s'"
      using Cons.prems(1) unfolding halt(3) sound_def
      by (auto intro: coherent_halt_fill tracked_halt_fill)
    then show ?thesis using Cons.prems(2) by (intro exI[of _ "p # ps"]) (simp add: halt(3))
  next
    case (go t)
    let ?s1 = "record_result E tot (process_one E p)
                (s\<lparr>clock := t, seen := insert p (seen s), trace := trace s @ [Submit p]\<rparr>)"
    have "sound E tot e0 imgs ps ?s1"
      using Cons.prems(1,2) unfolding sound_def
      by (auto intro: coherent_record_seq tracked_record_seq)
    moreover have "running ?s1 = []" using Cons.prems(2) by (simp add: record_result_eq)
    ultimately show ?thesis using Cons.IH go(3) by blast
  qed
qed

lemma sound_fill:
  "sound E tot e0 imgs (imgs_iter s) s \<Longrightarrow> fill E s = Some s' \<Longrightarrow>
   sound E tot e0 imgs (imgs_iter s') s' \<and> (0 < max_workers E \<longrightarrow> drained s')"
proof (induction "nat (max_workers E - int (length (running s)))" arbitrary: s rule: less_induct)
  case less
  from less.prems(2) show ?case
  proof (cases rule: fill_cases)
    case full
    then show ?thesis using less.prems(1) by (auto simp: drained_def)
  next
    case (halt t)
    then show ?thesis using less.prems(1)
      by (auto simp: sound_def drained_def intro: coherent_halt_fill tracked_halt_fill)
  next
    case (none t it)
    have "it = []" using none(3) next_img_None_seen by blast
    then show ?thesis using less.prems(1) none
      by (auto simp: sound_def drained_def intro: coherent_none tracked_none)
  next
    case (some t it nxt)
    have "sound E tot e0 imgs (imgs_iter (submitted t it nxt s)) (submitted t it nxt s)"
      using less.prems(1) some(3) unfolding sound_def
      by (auto intro: coherent_submit tracked_submit)
    moreover have "nat (max_workers E - int (length (running (submitted t it nxt s))))
                    < nat (max_workers E - int (length (running s)))"
      using some(1) by simp
    ultimately show ?thesis using less.hyps some(4) by blast
  qed
qed

lemma sound_handle_done:
  "sound E tot e0 imgs (imgs_iter s) s \<Longrightarrow> distinct ds \<Longrightarrow> set ds \<subseteq> set (running s) \<Longrightarrow>
   handle_done E tot ds s = Some s' \<Longrightarrow>
   sound E tot e0 imgs (imgs_iter s') s' \<and> (drained s \<or> ds \<noteq> [] \<longrightarrow> drained s')"
proof (induction ds arbitrary: s)
  case Nil
  then show ?case by simp
next
  case (Cons fut rest)
  let ?s1 = "collected E tot fut s"
  have fut: "fut \<in> set (running s)" and dr: "distinct rest" and nf: "fut \<notin> set rest"
    using Cons.prems(2,3) by auto
  have i1: "imgs_iter ?s1 = imgs_iter s" by (simp add: record_result_eq)
  have s1: "sound E tot e0 imgs (imgs_iter ?s1) ?s1"
    unfolding i1 using Cons.prems(1) fut
    by (simp add: sound_def coherent_record tracked_record)
  have r1: "running ?s1 = remove1 fut (running s)" by (simp add: record_result_eq)
  have rest1: "set rest \<subseteq> set (running ?s1)"
  proof
    fix x assume "x \<in> set rest"
    then have "x \<noteq> fut" "x \<in> set (running s)" using nf Cons.prems(3) by auto
    then show "x \<in> set (running ?s1)" by (simp add: r1 in_set_remove1)
  qed
  from Cons.prems(4) show ?case
  proof (cases rule: handle_done_cases)
    case (halt t)
    then show ?thesis using s1
      by (auto simp: sound_def drained_def intro: coherent_halt tracked_halt_pool)
  next
    case (none t it)
    let ?s2 = "?s1\<lparr>clock := t, imgs_iter := it\<rparr>"
    have it: "it = []" using none(2) next_img_None_seen by blast
    have "sound E tot e0 imgs (imgs_iter ?s2) ?s2"
      using s1 none(2) unfolding sound_def by (auto intro: coherent_none tracked_none)
    moreover have "set rest \<subseteq> set (running ?s2)" using rest1 by simp
    moreover have "drained ?s2" by (simp add: drained_def it)
    ultimately show ?thesis using Cons.IH[OF _ dr _ none(3)] by blast
  next
    case (some t it nxt)
    let ?s2 = "submitted t it nxt ?s1"
    have "sound E tot e0 imgs (imgs_iter ?s2) ?s2"
      using s1 some(2) unfolding sound_def by (auto intro: coherent_submit tracked_submit)
    moreover have "set rest \<subseteq> set (running ?s2)" using rest1 by auto
    moreover have "drained ?s2" by (simp add: drained_def)
    ultimately show ?thesis using Cons.IH[OF _ dr _ some(3)] by blast
  qed
qed

lemma sound_run_pool:
  "sound E tot e0 imgs (imgs_iter s) s \<Longrightarrow> drained s \<Longrightarrow> run_pool E tot s = Some s' \<Longrightarrow>
   sound E tot e0 imgs (imgs_iter s') s' \<and> drained s' \<and> running s' = []"
proof (induction E tot s rule: run_pool.induct)
  case (1 E tot s)
  from "1.prems"(3) show ?case
  proof (cases rule: run_pool_cases)
    case idle
    then show ?thesis using "1.prems" by simp
  next
    case (pass s1)
    let ?ds = "done_set (schedule E (ticks s)) (running s)"
    have ds: "?ds \<noteq> []" "distinct ?ds" "set ?ds \<subseteq> set (running (s\<lparr>ticks := ticks s + 1\<rparr>))"
      using done_set_running[OF pass(1)] by simp_all
    have "sound E tot e0 imgs (imgs_iter (s\<lparr>ticks := ticks s + 1\<rparr>)) (s\<lparr>ticks := ticks s + 1\<rparr>)"
      using "1.prems"(1) unfolding sound_def by (auto intro: coherent_ticks tracked_ticks)
    from sound_handle_done[OF this ds(2,3) pass(2)] ds(1)
    have "sound E tot e0 imgs (imgs_iter s1) s1" "drained s1" by auto
    from "1.IH"[OF pass(1,2) this pass(3)] show ?thesis .
  qed
qed

subsection \<open>A whole run\<close>

lemma sound_initial:
  "sound E tot (''start'', start_data nm tot emb pgs) imgs imgs
     ((initial nm tot emb pgs)\<lparr>imgs_iter := it\<rparr>)"
  by (simp add: sound_def coherent_def tracked_def initial_def kept_def step_events_def)

lemma sound_run_driver:
  assumes "run_driver E tot imgs (initial nm tot emb pgs) = Some s"
  shows "\<exists>rest. sound E tot (''start'', start_data nm tot emb pgs) imgs rest s
           \<and> running s = [] \<and> (\<not> halted (trace s) \<longrightarrow> rest = [])"
proof (cases "max_workers E > 1")
  case True
  let ?s0 = "(initial nm tot emb pgs)\<lparr>imgs_iter := imgs\<rparr>"
  from assms True obtain s1 where f: "fill E ?s0 = Some s1" and p: "run_pool E tot s1 = Some s"
    by (auto simp: run_driver_def split: option.splits)
  have "sound E tot (''start'', start_data nm tot emb pgs) imgs (imgs_iter ?s0) ?s0"
    using sound_initial[of E tot nm emb pgs imgs imgs] by simp
  from sound_fill[OF this f] True
  have "sound E tot (''start'', start_data nm tot emb pgs) imgs (imgs_iter s1) s1" "drained s1"
    by auto
  from sound_run_pool[OF this p] show ?thesis
    by (intro exI[of _ "imgs_iter s"]) (auto simp: drained_def)
next
  case False
  with assms have r: "run_sequential E tot imgs (initial nm tot emb pgs) = Some s"
    by (simp add: run_driver_def)
  have "sound E tot (''start'', start_data nm tot emb pgs) imgs imgs (initial nm tot emb pgs)"
    using sound_initial[of E tot nm emb pgs imgs "[]"] by (simp add: initial_def)
  from sound_sequential[OF this _ r] show ?thesis by (simp add: initial_def)
qed

lemma mset_le_distinct:
  assumes "mset xs \<subseteq># mset ys" and "distinct ys"
  shows "distinct xs"
proof -
  from assms(1) obtain Z where "mset ys = mset xs + Z"
    by (auto simp: mset_subset_eq_exists_conv)
  moreover obtain ws where "mset ws = Z" using ex_mset by blast
  ultimately have "mset ys = mset (xs @ ws)" by simp
  then have "distinct (xs @ ws)" using assms(2) mset_eq_imp_distinct_iff by blast
  then show ?thesis by simp
qed

text \<open>What is known of the last state of every run.\<close>

lemma run_driver_final:
  assumes "run_driver E tot imgs (initial nm tot emb pgs) = Some s"
  shows "image_results s = kept E (results (trace s))"
    and "done_count s = length (results (trace s))"
    and "emitted (trace s) = (''start'', start_data nm tot emb pgs) # step_events E tot (results (trace s))"
    and "mset (results (trace s)) \<subseteq># mset (submits (trace s))"
    and "mset (submits (trace s)) \<subseteq># mset imgs"
    and "\<not> halted (trace s) \<Longrightarrow> set (results (trace s)) = set imgs"
    and "\<not> halted (trace s) \<Longrightarrow> distinct imgs \<Longrightarrow> mset (results (trace s)) = mset imgs"
proof -
  from sound_run_driver[OF assms] obtain rest where
    c: "coherent E tot (''start'', start_data nm tot emb pgs) s" and t: "tracked imgs rest s"
    and r: "running s = []" and h: "\<not> halted (trace s) \<longrightarrow> rest = []"
    by (auto simp: sound_def)
  show "image_results s = kept E (results (trace s))"
    and "done_count s = length (results (trace s))"
    and "emitted (trace s) = (''start'', start_data nm tot emb pgs) # step_events E tot (results (trace s))"
    using c by (simp_all add: coherent_def)
  show rs: "mset (results (trace s)) \<subseteq># mset (submits (trace s))"
    using trackedD(2)[OF t] r by simp
  have "mset (submits (trace s)) \<subseteq># mset (submits (trace s)) + mset rest" by simp
  from subset_mset.order_trans[OF this trackedD(1)[OF t]]
  show si: "mset (submits (trace s)) \<subseteq># mset imgs" .
  show eq: "set (results (trace s)) = set imgs" if nh: "\<not> halted (trace s)"
  proof -
    have "mset (results (trace s)) = mset (submits (trace s))"
      using trackedD(5)[OF t nh] r by simp
    then have "set (results (trace s)) = set (submits (trace s))" by (metis set_mset_mset)
    then show ?thesis using trackedD(4)[OF t] h nh by simp
  qed
  show "mset (results (trace s)) = mset imgs" if nh: "\<not> halted (trace s)" and d: "distinct imgs"
  proof -
    have le: "mset (results (trace s)) \<subseteq># mset imgs"
      using rs si by (rule subset_mset.order_trans)
    have "distinct (results (trace s))"
      using le d by (rule mset_le_distinct)
    then show ?thesis using eq[OF nh] d by (simp add: set_eq_iff_mset_eq_distinct)
  qed
qed

section \<open>The order of the output\<close>

lemma order_map_snoc: "order_map (xs @ [x]) = (order_map xs)(name x \<mapsto> length xs)"
  by (simp add: order_map_def enumerate_append_eq)




lemma order_map_index:
  "distinct (map name imgs) \<Longrightarrow> i < length imgs \<Longrightarrow> order_map imgs (name (imgs ! i)) = Some i"
proof (induction imgs rule: rev_induct)
  case Nil
  then show ?case by simp
next
  case (snoc x xs)
  show ?case
  proof (cases "i < length xs")
    case True
    then have "name (xs ! i) \<in> name ` set xs" by simp
    moreover have "name x \<notin> name ` set xs" using snoc.prems(1) by simp
    ultimately have "name (xs ! i) \<noteq> name x" by metis
    with True snoc show ?thesis by (simp add: order_map_snoc nth_append)
  next
    case False
    with snoc.prems(2) have "i = length xs" by simp
    then show ?thesis by (simp add: order_map_snoc)
  qed
qed

lemma order_key_indices:
  assumes "distinct (map name imgs)"
  shows "map (\<lambda>p. order_key imgs (name p, c p)) imgs = [0..<length imgs]"
proof (rule nth_equalityI)
  show "length (map (\<lambda>p. order_key imgs (name p, c p)) imgs) = length [0..<length imgs]" by simp
next
  fix i assume "i < length (map (\<lambda>p. order_key imgs (name p, c p)) imgs)"
  then have i: "i < length imgs" by simp
  then show "map (\<lambda>p. order_key imgs (name p, c p)) imgs ! i = [0..<length imgs] ! i"
    by (simp add: order_key_def order_map_index[OF assms i])
qed

text \<open>
  Sorting by \<^verbatim>\<open>order_map\<close> the entries of any list of distinct images of the batch gives
  the entries in the order of the batch.
\<close>

lemma sort_by_order_key:
  assumes dn: "distinct (map name imgs)" and dr: "distinct rs" and sub: "set rs \<subseteq> set imgs"
  shows "sort_key (order_key imgs) (map (\<lambda>p. (name p, c p)) rs)
           = map (\<lambda>p. (name p, c p)) (filter (\<lambda>p. p \<in> set rs) imgs)"
proof -
  let ?f = "\<lambda>p. (name p, c p)" and ?k = "order_key imgs"
  let ?g = "\<lambda>p. ?k (?f p)"
  let ?B = "filter (\<lambda>p. p \<in> set rs) imgs"
  have gi: "map ?g imgs = [0..<length imgs]" by (rule order_key_indices[OF dn])
  have sg: "sorted (map ?g imgs)" and dg: "distinct (map ?g imgs)" by (simp_all add: gi)
  have inj: "inj_on ?g (set imgs)" using dg by (simp add: distinct_map)
  have setB: "set ?B = set rs" using sub by auto
  have 1: "inj_on ?k (set (sort_key ?k (map ?f rs)) \<union> set (map ?f ?B))"
  proof -
    have "inj_on ?k (?f ` set rs)"
      using inj sub by (auto simp: inj_on_def)
    moreover have "?f ` set ?B = ?f ` set rs" by (simp only: setB)
    ultimately show ?thesis by simp
  qed
  have 2: "sorted (map ?k (sort_key ?k (map ?f rs)))" by (rule sorted_sort_key)
  have "distinct (map ?g rs)"
    using dr inj sub by (auto simp: distinct_map intro: inj_on_subset)
  then have "distinct (map ?k (map ?f rs))" by (simp add: comp_def)
  moreover have "mset (map ?k (sort_key ?k (map ?f rs))) = mset (map ?k (map ?f rs))"
    by (simp only: mset_map mset_sort)
  ultimately have 3: "distinct (map ?k (sort_key ?k (map ?f rs)))"
    using mset_eq_imp_distinct_iff by blast
  have "sorted (map ?g ?B)" using sg by (rule sorted_filter)
  then have 4: "sorted (map ?k (map ?f ?B))" by (simp add: comp_def)
  have "distinct (map ?g ?B)" using dg by (rule distinct_map_filter)
  then have 5: "distinct (map ?k (map ?f ?B))" by (simp add: comp_def)
  have 6: "set (sort_key ?k (map ?f rs)) = set (map ?f ?B)" by (simp only: set_sort set_map setB)
  from map_sorted_distinct_set_unique[OF 1 2 3 4 5 6] show ?thesis .
qed

lemma sort_kept:
  assumes dn: "distinct (map name imgs)" and dr: "distinct rs" and sub: "set rs \<subseteq> set imgs"
  shows "sort_key (order_key imgs) (kept E rs) = kept E (filter (\<lambda>p. p \<in> set rs) imgs)"
proof -
  let ?A = "filter (succeeded E) rs"
  have "sort_key (order_key imgs) (map (\<lambda>p. (name p, the (data_of E p))) ?A)
          = map (\<lambda>p. (name p, the (data_of E p))) (filter (\<lambda>p. p \<in> set ?A) imgs)"
    using dn dr sub by (intro sort_by_order_key) auto
  moreover have "filter (\<lambda>p. p \<in> set ?A) imgs = filter (succeeded E) (filter (\<lambda>p. p \<in> set rs) imgs)"
    by (simp add: conj_commute)
  ultimately show ?thesis by (simp add: kept_def)
qed

lemma kept_cong:
  assumes "process_one E' = process_one E"
  shows "kept E' = kept E"
proof -
  have d: "data_of E' = data_of E" by (rule ext) (simp add: data_of_def assms)
  have e: "err_of E' = err_of E" by (rule ext) (simp add: err_of_def assms)
  have s: "succeeded E' = succeeded E" by (rule ext) (simp add: succeeded_def d e)
  show ?thesis by (rule ext) (simp add: kept_def d s)
qed

lemma process_pdf_run:
  assumes "process_pdf E embedded_images full_pages = Some (tr, out)"
  obtains s where
    "run_driver E (length embedded_images + length full_pages) (embedded_images @ full_pages)
       (initial (batch_name E) (length embedded_images + length full_pages)
          (length embedded_images) (length full_pages)) = Some s"
    and "tr = trace s @ [Emit ''finish'' (finish_data (batch_name E) (done_count s)
                  (length embedded_images + length full_pages) (usage_totals s))]"
    and "out = sort_key (order_key (embedded_images @ full_pages)) (image_results s)"
  using assms by (auto simp: process_pdf_def finish_def Let_def split: option.splits)

lemma output_in_batch_order:
  assumes dn: "distinct (map name imgs)"
    and run: "run_driver E tot imgs (initial nm tot emb pgs) = Some s"
  shows "sort_key (order_key imgs) (image_results s)
           = kept E (filter (\<lambda>p. p \<in> set (results (trace s))) imgs)"
proof -
  have di: "distinct imgs" using dn by (simp add: distinct_map)
  note f = run_driver_final[OF run]
  have le: "mset (results (trace s)) \<subseteq># mset imgs"
    using f(4,5) by (rule subset_mset.order_trans)
  have dr: "distinct (results (trace s))" using le di by (rule mset_le_distinct)
  have sub: "set (results (trace s)) \<subseteq> set imgs" using le by (metis set_mset_mono set_mset_mset)
  show ?thesis unfolding f(1) by (rule sort_kept[OF dn dr sub])
qed

definition demo_env :: env where
  "demo_env =
     \<lparr>batch_name = ''doc'', extract_mode = ''text'', max_workers = 2, control_getter = None,
      call_doubao_extract_text =
        (\<lambda>p. if name p = ''page-2-img-1.png'' then Inl (Exn ReadTimeout ''Read timed out.'')
             else Inr (name p, None)),
      call_doubao_extract_tables = (\<lambda>p. Inr ([], None)),
      lib = example_lib,
      parse_model_output_to_tables = (\<lambda>s. Inr []),
      schedule = (\<lambda>k. (1, []))\<rparr>"

definition demo_node :: "string \<Rightarrow> json list" where
  "demo_node s = [JObj [(''type'', JStr ''paragraph''), (''text'', JStr s)]]"



lemma doc_images:
  "source_images [[Some ''png''], [None]] ''tmp'' ''both'' =
     ([Path ''tmp'' ''page-1-img-1.png'', Path ''tmp'' ''page-2-img-1.png''],
      [Path ''tmp'' ''page-1-full.png'', Path ''tmp'' ''page-2-full.png''])"
  by code_simp

definition doc_step :: "nat \<Rightarrow> string \<Rightarrow> string option \<Rightarrow> action" where
  "doc_step d nm err = Emit ''step'' (step_data ''doc'' d 4 (Path ''tmp'' nm) err None)"

lemma doc_run:
  "process_pdf demo_env
      [Path ''tmp'' ''page-1-img-1.png'', Path ''tmp'' ''page-2-img-1.png'']
      [Path ''tmp'' ''page-1-full.png'', Path ''tmp'' ''page-2-full.png'']
    = Some ([Emit ''start'' (start_data ''doc'' 4 2 2),
             Submit (Path ''tmp'' ''page-1-img-1.png''), Submit (Path ''tmp'' ''page-2-img-1.png''),
             Result (Path ''tmp'' ''page-2-img-1.png''),
             doc_step 1 ''page-2-img-1.png'' (Some ''Read timed out.''),
             Submit (Path ''tmp'' ''page-1-full.png''),
             Result (Path ''tmp'' ''page-1-full.png''),
             doc_step 2 ''page-1-full.png'' None,
             Submit (Path ''tmp'' ''page-2-full.png''),
             Result (Path ''tmp'' ''page-2-full.png''),
             doc_step 3 ''page-2-full.png'' None,
             Result (Path ''tmp'' ''page-1-img-1.png''),
             doc_step 4 ''page-1-img-1.png'' None,
             Emit ''finish'' (finish_data ''doc'' 4 4 \<lparr>u_prompt = 0, u_completion = 0, u_total = 0\<rparr>)],
            [(''page-1-img-1.png'', demo_node ''page-1-img-1.png''),
             (''page-1-full.png'', demo_node ''page-1-full.png''),
             (''page-2-full.png'', demo_node ''page-2-full.png'')])"
  by code_simp

text \<open>
  C1: for the images that \<^verbatim>\<open>process_pdf\<close> takes from a PDF (their names are distinct,
  lemma \<open>pdf_names_distinct\<close>), the list handed to the writer holds exactly the
  results that arrived and are successes, in the order of the images in the batch: it
  is sorted by the position \<^verbatim>\<open>order_map\<close> gives, which is the image's position in the
  batch. The list depends on which results arrived, not on the order of their arrival:
  two runs with the same outcomes per image in which the same images' results arrived
  hand over the same list. A result that is an error, or that never arrived, is not in
  the list.
\<close>

theorem results_in_submission_order:
  assumes src: "source_images doc tmp_img_dir source_mode = (embedded_images, full_pages)"
    and run: "process_pdf E embedded_images full_pages = Some (tr, out)"
  shows "out = kept E (filter (\<lambda>p. p \<in> set (results tr)) (embedded_images @ full_pages))
     \<and> sorted (map (order_key (embedded_images @ full_pages)) out)
     \<and> (\<forall>i < length (embedded_images @ full_pages).
           order_map (embedded_images @ full_pages) (name ((embedded_images @ full_pages) ! i)) = Some i)
     \<and> (\<forall>E' tr' out'. process_one E' = process_one E
           \<and> process_pdf E' embedded_images full_pages = Some (tr', out')
           \<and> set (results tr') = set (results tr) \<longrightarrow> out' = out)"
proof -
  let ?imgs = "embedded_images @ full_pages"
  have dn: "distinct (map name ?imgs)" using src by (rule pdf_names_distinct)
  have form: "out' = kept E' (filter (\<lambda>p. p \<in> set (results tr')) ?imgs)
              \<and> sorted (map (order_key ?imgs) out')"
    if "process_pdf E' embedded_images full_pages = Some (tr', out')" for E' tr' out'
  proof -
    from that obtain s where s: "run_driver E' (length embedded_images + length full_pages) ?imgs
       (initial (batch_name E') (length embedded_images + length full_pages)
          (length embedded_images) (length full_pages)) = Some s"
      and tr: "tr' = trace s @ [Emit ''finish'' (finish_data (batch_name E') (done_count s)
                  (length embedded_images + length full_pages) (usage_totals s))]"
      and out: "out' = sort_key (order_key ?imgs) (image_results s)"
      by (rule process_pdf_run)
    have rt: "results tr' = results (trace s)" by (simp add: tr)
    have a: "out' = kept E' (filter (\<lambda>p. p \<in> set (results tr')) ?imgs)"
      unfolding out rt by (rule output_in_batch_order[OF dn s])
    have b: "sorted (map (order_key ?imgs) out')"
      unfolding out by (rule sorted_sort_key)
    from a b show ?thesis ..
  qed
  have 1: "out = kept E (filter (\<lambda>p. p \<in> set (results tr)) ?imgs)"
    and 2: "sorted (map (order_key ?imgs) out)"
    using form[OF run] by blast+
  have 3: "\<forall>i < length ?imgs. order_map ?imgs (name (?imgs ! i)) = Some i"
    using order_map_index[OF dn] by blast
  have 4: "out' = out"
    if "process_one E' = process_one E"
      and "process_pdf E' embedded_images full_pages = Some (tr', out')"
      and "set (results tr') = set (results tr)" for E' tr' out'
  proof -
    have "out' = kept E' (filter (\<lambda>p. p \<in> set (results tr')) ?imgs)"
      using form[OF that(2)] by blast
    then show ?thesis unfolding kept_cong[OF that(1)] that(3) using 1 by simp
  qed
  from 1 2 3 4 show ?thesis by blast
qed

theorem results_in_submission_order_witness:
  "source_images [[Some ''png''], [None]] ''tmp'' ''both'' =
     ([Path ''tmp'' ''page-1-img-1.png'', Path ''tmp'' ''page-2-img-1.png''],
      [Path ''tmp'' ''page-1-full.png'', Path ''tmp'' ''page-2-full.png''])
   \<and> results (fst (the (process_pdf demo_env
        [Path ''tmp'' ''page-1-img-1.png'', Path ''tmp'' ''page-2-img-1.png'']
        [Path ''tmp'' ''page-1-full.png'', Path ''tmp'' ''page-2-full.png''])))
      = [Path ''tmp'' ''page-2-img-1.png'', Path ''tmp'' ''page-1-full.png'',
         Path ''tmp'' ''page-2-full.png'', Path ''tmp'' ''page-1-img-1.png'']
   \<and> snd (the (process_pdf demo_env
        [Path ''tmp'' ''page-1-img-1.png'', Path ''tmp'' ''page-2-img-1.png'']
        [Path ''tmp'' ''page-1-full.png'', Path ''tmp'' ''page-2-full.png'']))
      = [(''page-1-img-1.png'', demo_node ''page-1-img-1.png''),
         (''page-1-full.png'', demo_node ''page-1-full.png''),
         (''page-2-full.png'', demo_node ''page-2-full.png'')]
   \<and> kept demo_env (filter (\<lambda>p. p \<in> {Path ''tmp'' ''page-2-img-1.png'',
           Path ''tmp'' ''page-1-full.png'', Path ''tmp'' ''page-2-full.png'',
           Path ''tmp'' ''page-1-img-1.png''})
         ([Path ''tmp'' ''page-1-img-1.png'', Path ''tmp'' ''page-2-img-1.png'']
           @ [Path ''tmp'' ''page-1-full.png'', Path ''tmp'' ''page-2-full.png'']))
      = [(''page-1-img-1.png'', demo_node ''page-1-img-1.png''),
         (''page-1-full.png'', demo_node ''page-1-full.png''),
         (''page-2-full.png'', demo_node ''page-2-full.png'')]"
proof -
  from results_in_submission_order[OF doc_images doc_run]
  show ?thesis by (simp add: doc_images doc_run doc_step_def)
qed

section \<open>The control gate and the end of a run\<close>










subsection \<open>Every loop ends when the gate answers\<close>







subsection \<open>After the driver has seen \<^verbatim>\<open>stop\<close>\<close>

text \<open>
  \<open>step_count\<close> counts the step events of a trace and \<open>late_steps\<close> those sent after
  the driver first saw \<^verbatim>\<open>stop\<close>. A state is \<open>quiet\<close> when nothing was submitted after
  that moment and, if the moment has come, \<^verbatim>\<open>stop\<close> is set at the next read.
\<close>

definition step_count :: "action list \<Rightarrow> nat" where
  "step_count tr = length (filter (\<lambda>e. fst e = ''step'') (emitted tr))"




lemma step_count_simps [simp]:
  "step_count [] = 0" "step_count (tr @ tr') = step_count tr + step_count tr'"
  "step_count (Submit p # tr) = step_count tr" "step_count (Result p # tr) = step_count tr"
  "step_count (Halt # tr) = step_count tr"
  "step_count (Emit ev d # tr) = (if ev = ''step'' then Suc (step_count tr) else step_count tr)"
  by (simp_all add: step_count_def)




lemma halted_collected:
  "halted (trace (record_result E tot (process_one E p) s)) = halted (trace s)"
  by (simp add: record_result_eq)






section \<open>Stopping a batch\<close>










section \<open>Items that fail\<close>





























section \<open>Natural order of the images of a batch\<close>

subsection \<open>The pieces of a name\<close>

fun alternates :: "bool \<Rightarrow> string list \<Rightarrow> bool" where
  \<comment> \<open>pieces without digits and runs of digits in turn; \<open>b\<close> says that a run is due\<close>
  "alternates b [] = True"
| "alternates b (p # ps) = (isdigit p = b \<and> alternates (\<not> b) ps)"

lemma text_piece: "\<forall>c\<in>set cur. \<not> is_digit c \<Longrightarrow> \<not> isdigit cur"
  by (cases cur) (auto simp: isdigit_def)

lemma digit_piece: "cur \<noteq> [] \<Longrightarrow> \<forall>c\<in>set cur. is_digit c \<Longrightarrow> isdigit cur"
  by (simp add: isdigit_def list_all_iff)

lemma split_alternates:
  "(\<forall>c\<in>set cur. \<not> is_digit c) \<longrightarrow> alternates False (split_text cur s)"
  "(cur' \<noteq> [] \<and> (\<forall>c\<in>set cur'. is_digit c)) \<longrightarrow> alternates True (split_digits cur' s')"
proof (induction cur s and cur' s' rule: split_text_split_digits.induct)
  case (1 cur)
  show ?case by (simp add: text_piece)
next
  case (2 cur c cs)
  then show ?case by (auto simp: text_piece)
next
  case (3 cur)
  show ?case by (auto simp: digit_piece isdigit_def list_all_iff)
next
  case (4 cur c cs)
  then show ?case by (auto simp: digit_piece)
qed

lemma alternates_nth:
  "alternates b ps \<Longrightarrow> i < length ps \<Longrightarrow> isdigit (ps ! i) = (if even i then b else \<not> b)"
proof (induction ps arbitrary: b i)
  case Nil
  then show ?case by simp
next
  case (Cons p ps)
  show ?case
  proof (cases i)
    case 0
    with Cons.prems show ?thesis by simp
  next
    case (Suc j)
    with Cons.prems have "isdigit (ps ! j) = (if even j then \<not> b else \<not> \<not> b)"
      by (intro Cons.IH) simp_all
    with Suc show ?thesis by simp
  qed
qed

lemma natural_key_kinds:
  assumes "i < length (natural_key nm)"
  shows "if even i then \<exists>s. natural_key nm ! i = KStr s else \<exists>n. natural_key nm ! i = KInt n"
proof -
  have a: "alternates False (re_split_digits nm)"
    using split_alternates(1)[of "[]" nm] by (simp add: re_split_digits_def)
  have i: "i < length (re_split_digits nm)" using assms by (simp add: natural_key_def)
  from alternates_nth[OF a i] i show ?thesis by (simp add: natural_key_def)
qed

subsection \<open>The positions of the images and the order of the output\<close>












end
